theory Spec2Isabelle
  imports Main "HOL-Library.Sublist"
begin

section \<open>HTTP message writing: the synchronous and the asynchronous engine\<close>

text \<open>
  The development embeds the two drivers of the HTTP write implementation of Beast (the
  file guarded by \<^verbatim>\<open>BEAST_HTTP_WRITE_IPP_INCLUDED\<close>; the line numbers below are its
  lines): the blocking function \<^verbatim>\<open>write\<close> and the composed operation
  \<^verbatim>\<open>detail::write_op\<close> started by \<^verbatim>\<open>async_write\<close>. Both drive a \<^verbatim>\<open>write_preparation\<close>
  object \<^verbatim>\<open>wp\<close>: its serialized header \<^verbatim>\<open>wp.sb\<close>, its flags \<^verbatim>\<open>wp.chunked\<close> and
  \<^verbatim>\<open>wp.close\<close>, and its body writer \<^verbatim>\<open>wp.w\<close>.

  Everything the engines do to the outside world is recorded as a list of events, in the
  order in which it happens: the call of \<^verbatim>\<open>wp.init\<close>, every call of the body writer,
  every buffer sequence handed to the stream, every entry into \<^verbatim>\<open>write_op::operator()\<close>,
  every invocation of a resume context, and the error code finally reported.
\<close>

subsection \<open>Bytes, error codes and the chunk encoder\<close>

type_synonym bytes = string

text \<open>
  The values of an \<^verbatim>\<open>error_code\<close> that is set: \<open>eof\<close> is \<^verbatim>\<open>boost::asio::error::eof\<close>,
  every other value is \<open>other_error k\<close>. An \<^verbatim>\<open>error_code\<close> is \<open>None\<close> when it is cleared
  (\<^verbatim>\<open>error_code{}\<close>, for which \<^verbatim>\<open>if(ec)\<close> fails) and \<open>Some e\<close> when it is set.
\<close>

datatype error = eof | other_error nat

type_synonym error_code = "error option"

definition crlf :: bytes where
  "crlf = [CHR 0x0D, CHR 0x0A]"

text \<open>
  Modelled from the spec: \<^verbatim>\<open>chunk_encode\<close> is declared in \<^verbatim>\<open>beast/http/chunk_encode.h\<close>,
  which is not part of the sources at hand. The encoder prefixes the buffer sequence with
  its length in hexadecimal followed by CRLF and appends a trailing CRLF. The length is
  written without leading zeros, so that an empty slice is encoded as \<^verbatim>\<open>0 CR LF CR LF\<close>;
  the digits above 9 are taken in lower case, which the spec leaves open.
\<close>

definition hex_digit :: "nat \<Rightarrow> char" where
  "hex_digit d = ''0123456789abcdef'' ! d"

fun to_hex :: "nat \<Rightarrow> bytes" where
  "to_hex n = (if n < 16 then [hex_digit n] else to_hex (n div 16) @ [hex_digit (n mod 16)])"

declare to_hex.simps [simp del]

definition chunk_encode :: "bytes \<Rightarrow> bytes" where
  "chunk_encode buffers = to_hex (length buffers) @ crlf @ buffers @ crlf"

text \<open>
  Modelled from the spec: \<^verbatim>\<open>chunk_encode_final\<close> is declared in the same absent header. It
  returns the fixed sequence \<^verbatim>\<open>0 CR LF CR LF\<close>; trailers are not supported.
\<close>

definition chunk_encode_final :: bytes where
  "chunk_encode_final = ''0'' @ crlf @ crlf"

subsection \<open>The collaborators: message preparation, body writer, stream\<close>

text \<open>
  Modelled from the spec: \<^verbatim>\<open>detail::write_preparation\<close> is declared in
  \<^verbatim>\<open>beast/http/detail/write_preparation.h\<close>, which is not part of the sources at hand. The
  record holds what the engines read from it: the two flags, the serialized header that
  \<^verbatim>\<open>wp.sb.data()\<close> yields once \<^verbatim>\<open>wp.init\<close> has run, and the error code that \<^verbatim>\<open>wp.init\<close>
  leaves in \<^verbatim>\<open>ec\<close>. \<open>content_length\<close> is the body length that the message declares in a
  content-length header; neither engine reads it.
\<close>

record write_preparation =
  chunked :: bool
  close :: bool
  sb :: bytes
  init_ec :: error_code
  content_length :: nat

text \<open>
  Modelled from the spec: the body writer \<^verbatim>\<open>wp.w\<close> is a member of the absent
  \<^verbatim>\<open>write_preparation\<close>. One call \<^verbatim>\<open>wp.w(resume, ec, emit)\<close> does one of three things:
  \<^item> \<open>Emit buffers done\<close>: it invokes \<^verbatim>\<open>emit\<close> once with the next slice of the body and
    returns \<^verbatim>\<open>true\<close> (\<open>done\<close>, no more data) or \<^verbatim>\<open>false\<close> (more data follows);
  \<^item> \<open>Suspended\<close>: it keeps the resume context, does not invoke \<^verbatim>\<open>emit\<close> and returns
    \<^verbatim>\<open>boost::indeterminate\<close>;
  \<^item> \<open>Failed e\<close>: it sets \<^verbatim>\<open>ec\<close> to \<open>e\<close> and does not invoke \<^verbatim>\<open>emit\<close>.

  A body writer is given by the outcomes of its successive calls. Where the list ends
  nothing more is known about the writer, and the run of an engine that asks for one
  more outcome ends there, unfinished.
\<close>

datatype outcome = Emit bytes bool | Suspended | Failed error

text \<open>
  The four buffer sequences that the engines hand to the stream, one constructor for each
  call site: \<^verbatim>\<open>append_buffers(wp.sb.data(), ...)\<close> with the (possibly chunk-encoded) slice,
  \<^verbatim>\<open>wp.sb.data()\<close> alone, the (possibly chunk-encoded) slice alone, and
  \<^verbatim>\<open>chunk_encode_final()\<close>. \<open>wire\<close> gives the bytes of a sequence.
\<close>

datatype payload =
    HeaderAndBody bytes bytes
  | HeaderOnly bytes
  | BodyOnly bytes
  | FinalChunk

fun wire :: "payload \<Rightarrow> bytes" where
  "wire (HeaderAndBody h b) = h @ b"
| "wire (HeaderOnly h) = h"
| "wire (BodyOnly b) = b"
| "wire FinalChunk = chunk_encode_final"

text \<open>
  The stream: the \<open>n\<close>-th write (counted from 0) drains its buffers and reports the error
  code \<open>tr n\<close>. (\<^verbatim>\<open>boost::asio::write\<close> and \<^verbatim>\<open>boost::asio::async_write\<close> either transfer
  all the buffers or report an error.)
\<close>

type_synonym transport = "nat \<Rightarrow> error_code"

datatype event =
    Init error_code
  | Produce outcome
  | Write payload error_code
  | Resume
  | Enter
  | Complete error_code

text \<open>
  \<open>Init ec\<close>: \<^verbatim>\<open>wp.init(ec)\<close> was called and left \<open>ec\<close>. \<open>Produce r\<close>: \<^verbatim>\<open>wp.w\<close> was called,
  with outcome \<open>r\<close>. \<open>Write p ec\<close>: the buffers \<open>p\<close> were handed to the stream, which
  reported \<open>ec\<close>. \<open>Resume\<close>: the resume context handed to the last suspended call was
  invoked (in \<^verbatim>\<open>write\<close> the event stands for the return of \<^verbatim>\<open>cv.wait\<close>, which the invocation
  makes possible). \<open>Enter\<close>: \<^verbatim>\<open>write_op::operator()\<close> was entered. \<open>Complete ec\<close>: the engine
  reported \<open>ec\<close> to its caller (\<^verbatim>\<open>write\<close> returned with \<open>ec\<close>; \<^verbatim>\<open>write_op\<close> invoked the
  handler \<^verbatim>\<open>d.h(ec)\<close>). The resume context is invoked by the party that holds it, after
  the call of the body writer that suspended has returned and exactly once.
\<close>

text \<open>The emit lambdas' \<^verbatim>\<open>if(wp.chunked) ... chunk_encode(buffers) ... else ... buffers\<close>.\<close>

definition body_buffers :: "write_preparation \<Rightarrow> bytes \<Rightarrow> bytes" where
  "body_buffers wp buffers = (if chunked wp then chunk_encode buffers else buffers)"

subsection \<open>The synchronous engine: \<^verbatim>\<open>write\<close>\<close>

text \<open>
  The tail of \<^verbatim>\<open>write\<close> after the outer loop (lines 355 to 370): the final chunk of a
  chunked message, then \<^verbatim>\<open>eof\<close> in \<^verbatim>\<open>ec\<close> when \<^verbatim>\<open>wp.close\<close> is set.
\<close>

definition write_final :: "write_preparation \<Rightarrow> transport \<Rightarrow> nat \<Rightarrow> event list" where
  "write_final wp tr n =
     (if chunked wp then
        Write FinalChunk (tr n) #
        (case tr n of
           Some e \<Rightarrow> [Complete (Some e)]
         | None \<Rightarrow> [Complete (if close wp then Some eof else None)])
      else [Complete (if close wp then Some eof else None)])"

text \<open>
  The two nested loops of \<^verbatim>\<open>write\<close> (lines 299 to 354). \<open>write_outer\<close> is one pass of the
  outer \<^verbatim>\<open>for(;;)\<close> from its top, with \<open>sbuf\<close> the current contents of \<^verbatim>\<open>wp.sb\<close>;
  \<open>write_inner\<close> is the inner \<^verbatim>\<open>for(;;)\<close>, entered after \<^verbatim>\<open>wp.sb.consume(wp.sb.size())\<close>.
  \<open>n\<close> counts the writes made so far. In the first block a \<^verbatim>\<open>true\<close> result leaves the
  outer loop; in the inner loop \<^verbatim>\<open>break\<close> leaves the inner loop only, and control
  reaches the top of the outer loop again, with \<^verbatim>\<open>wp.sb\<close> empty. A suspended call blocks
  in \<^verbatim>\<open>cv.wait\<close> until the resume context has been invoked (\<open>Resume\<close>).
\<close>

fun write_outer :: "write_preparation \<Rightarrow> transport \<Rightarrow> bytes \<Rightarrow> nat \<Rightarrow> outcome list \<Rightarrow> event list"
  and write_inner :: "write_preparation \<Rightarrow> transport \<Rightarrow> nat \<Rightarrow> outcome list \<Rightarrow> event list"
where
  "write_outer wp tr sbuf n [] = []"
| "write_outer wp tr sbuf n (r # rs) =
     Produce r #
     (case r of
        Failed e \<Rightarrow> [Complete (Some e)]
      | Emit buffers done \<Rightarrow>
          Write (HeaderAndBody sbuf (body_buffers wp buffers)) (tr n) #
          (case tr n of
             Some e \<Rightarrow> [Complete (Some e)]
           | None \<Rightarrow>
               if done then write_final wp tr (Suc n)
               else write_inner wp tr (Suc n) rs)
      | Suspended \<Rightarrow>
          Write (HeaderOnly sbuf) (tr n) #
          (case tr n of
             Some e \<Rightarrow> [Complete (Some e)]
           | None \<Rightarrow> Resume # write_inner wp tr (Suc n) rs))"
| "write_inner wp tr n [] = []"
| "write_inner wp tr n (r # rs) =
     Produce r #
     (case r of
        Failed e \<Rightarrow> [Complete (Some e)]
      | Emit buffers done \<Rightarrow>
          Write (BodyOnly (body_buffers wp buffers)) (tr n) #
          (case tr n of
             Some e \<Rightarrow> [Complete (Some e)]
           | None \<Rightarrow>
               if done then write_outer wp tr [] (Suc n) rs
               else write_inner wp tr (Suc n) rs)
      | Suspended \<Rightarrow> Resume # write_inner wp tr n rs)"

text \<open>\<^verbatim>\<open>write(stream, msg, ec)\<close>: \<^verbatim>\<open>wp.init(ec)\<close>, return on error, else the loops.\<close>

definition "write" :: "write_preparation \<Rightarrow> transport \<Rightarrow> outcome list \<Rightarrow> event list" where
  "write wp tr rs =
     Init (init_ec wp) #
     (case init_ec wp of
        Some e \<Rightarrow> [Complete (Some e)]
      | None \<Rightarrow> write_outer wp tr (sb wp) 0 rs)"

subsection \<open>The asynchronous engine: \<^verbatim>\<open>write_op\<close>\<close>

text \<open>
  \<open>write_op wp tr st sbuf n ec rs\<close> is the \<^verbatim>\<open>while(! ec && d.state != 99)\<close> loop of
  \<^verbatim>\<open>write_op::operator()\<close> (lines 150 to 268) with \<^verbatim>\<open>d.state = st\<close>, \<^verbatim>\<open>wp.sb\<close> holding
  \<open>sbuf\<close> and \<open>n\<close> writes made so far, followed by everything that happens afterwards.
  Where the operator returns with a continuation pending, the continuation runs next and
  enters the operator again (\<open>Enter\<close>):
  \<^item> a handler posted to the \<^verbatim>\<open>io_service\<close> (states 0 and 1 on error) enters with that
    error code;
  \<^item> the completion of an \<^verbatim>\<open>async_write\<close> enters with the error code of the write;
  \<^item> the resume context, once invoked (\<open>Resume\<close>), dispatches an entry with a cleared
    error code.
  When the loop is left, the handler is invoked: \<^verbatim>\<open>d.h(ec)\<close>. The flag \<^verbatim>\<open>d.cont\<close>, which
  only answers \<^verbatim>\<open>asio_handler_is_continuation\<close>, is left out. A value of \<^verbatim>\<open>d.state\<close> that
  no \<^verbatim>\<open>case\<close> matches makes the loop spin without any further event.
\<close>

function write_op ::
  "write_preparation \<Rightarrow> transport \<Rightarrow> int \<Rightarrow> bytes \<Rightarrow> nat \<Rightarrow> error_code \<Rightarrow> outcome list \<Rightarrow> event list"
where
  "write_op wp tr st sbuf n ec rs =
     (if ec \<noteq> None \<or> st = 99 then [Complete ec]
      else if st = 0 then
        Init (init_ec wp) #
        (case init_ec wp of
           Some e \<Rightarrow> Enter # write_op wp tr 99 sbuf n (Some e) rs
         | None \<Rightarrow> write_op wp tr 1 sbuf n None rs)
      else if st = 1 then
        (case rs of
           [] \<Rightarrow> []
         | r # rs' \<Rightarrow>
             Produce r #
             (case r of
                Failed e \<Rightarrow> Enter # write_op wp tr 99 sbuf n (Some e) rs'
              | Suspended \<Rightarrow> Resume # Enter # write_op wp tr 1 sbuf n None rs'
              | Emit buffers done \<Rightarrow>
                  Write (HeaderAndBody sbuf (body_buffers wp buffers)) (tr n) # Enter #
                  write_op wp tr (if done then (if chunked wp then 4 else 5) else 2)
                    sbuf (Suc n) (tr n) rs'))
      else if st = 2 then write_op wp tr 3 [] n None rs
      else if st = 3 then
        (case rs of
           [] \<Rightarrow> []
         | r # rs' \<Rightarrow>
             Produce r #
             (case r of
                Failed e \<Rightarrow> write_op wp tr 99 sbuf n (Some e) rs'
              | Suspended \<Rightarrow> Resume # Enter # write_op wp tr 3 sbuf n None rs'
              | Emit buffers done \<Rightarrow>
                  Write (BodyOnly (body_buffers wp buffers)) (tr n) # Enter #
                  write_op wp tr (if done then (if chunked wp then 4 else 5) else 2)
                    sbuf (Suc n) (tr n) rs'))
      else if st = 4 then
        Write FinalChunk (tr n) # Enter # write_op wp tr 5 sbuf (Suc n) (tr n) rs
      else if st = 5 then
        write_op wp tr 99 sbuf n (if close wp then Some eof else None) rs
      else [])"
  by pat_completeness auto
termination
  by (relation "measure (\<lambda>(wp, tr, st, sbuf, n, ec, rs).
        4 * length rs +
        (if st = 0 \<or> st = 2 then 3 else if st = 5 then 1 else if st = 99 then 0 else 2))")
     auto

declare write_op.simps [simp del]

text \<open>
  \<^verbatim>\<open>async_write\<close> constructs the operation; the constructor (lines 83 to 99) sets up the
  resume context and makes the first call \<^verbatim>\<open>(*this)(error_code{}, 0, false)\<close>.
\<close>

definition async_write :: "write_preparation \<Rightarrow> transport \<Rightarrow> outcome list \<Rightarrow> event list" where
  "async_write wp tr rs = Enter # write_op wp tr 0 (sb wp) 0 None rs"

subsection \<open>Observing a run\<close>

text \<open>
  What a run shows: the buffer sequences handed to the stream (\<open>writes\<close>), the outcomes of
  the body writer's calls (\<open>outcomes\<close>), the slices it emitted (\<open>slices\<close>), and the error
  codes reported to the caller (\<open>completions\<close>).
\<close>

fun writes :: "event list \<Rightarrow> payload list" where
  "writes [] = []"
| "writes (Write p ec # es) = p # writes es"
| "writes (_ # es) = writes es"

fun outcomes :: "event list \<Rightarrow> outcome list" where
  "outcomes [] = []"
| "outcomes (Produce r # es) = r # outcomes es"
| "outcomes (_ # es) = outcomes es"

fun slices :: "event list \<Rightarrow> bytes list" where
  "slices [] = []"
| "slices (Produce (Emit buffers done) # es) = buffers # slices es"
| "slices (_ # es) = slices es"

fun completions :: "event list \<Rightarrow> error_code list" where
  "completions [] = []"
| "completions (Complete ec # es) = ec # completions es"
| "completions (_ # es) = completions es"

text \<open>
  The errors that the collaborators raise: \<^verbatim>\<open>wp.init\<close> leaving an error in \<^verbatim>\<open>ec\<close>, the
  body writer setting one, a write to the stream reporting one. \<open>errors\<close> lists them in
  the order in which they occur; \<open>after_error\<close> is what happens after the first of them.
  A write completes without error when \<open>errors\<close> is empty and \<open>completions\<close> is not.
\<close>

fun error_of :: "event \<Rightarrow> error_code" where
  "error_of (Init ec) = ec"
| "error_of (Produce (Failed e)) = Some e"
| "error_of (Write p ec) = ec"
| "error_of _ = None"

fun errors :: "event list \<Rightarrow> error list" where
  "errors [] = []"
| "errors (ev # es) = (case error_of ev of Some e \<Rightarrow> e # errors es | None \<Rightarrow> errors es)"

fun after_error :: "event list \<Rightarrow> event list" where
  "after_error [] = []"
| "after_error (ev # es) = (case error_of ev of Some e \<Rightarrow> es | None \<Rightarrow> after_error es)"

text \<open>The bytes of \<^verbatim>\<open>wp.sb.data()\<close> that a buffer sequence carries.\<close>

fun header_part :: "payload \<Rightarrow> bytes" where
  "header_part (HeaderAndBody h b) = h"
| "header_part (HeaderOnly h) = h"
| "header_part _ = []"

text \<open>
  \<open>is_done r\<close>: the call returned \<^verbatim>\<open>true\<close>. \<open>first_suspends rs\<close>: the first call of the
  body writer suspends. \<open>before_done\<close> and \<open>after_done\<close> are the parts of a run before and
  after the first call of the body writer that returns \<^verbatim>\<open>true\<close>.
\<close>

fun is_done :: "outcome \<Rightarrow> bool" where
  "is_done (Emit buffers done) = done"
| "is_done _ = False"

fun first_suspends :: "outcome list \<Rightarrow> bool" where
  "first_suspends (Suspended # rs) = True"
| "first_suspends _ = False"

fun before_done :: "event list \<Rightarrow> event list" where
  "before_done [] = []"
| "before_done (Produce (Emit buffers True) # es) = []"
| "before_done (ev # es) = ev # before_done es"

fun after_done :: "event list \<Rightarrow> event list" where
  "after_done [] = []"
| "after_done (Produce (Emit buffers True) # es) = es"
| "after_done (ev # es) = after_done es"

text \<open>
  The body that a body writer delivers, read off the outcomes of its calls. \<open>body rs\<close>
  are the slices emitted by the calls up to and including the first one that returns
  \<^verbatim>\<open>true\<close>; the body ends there, and by its lifecycle the body writer is not to be called
  again. \<open>finishes rs\<close>: the body writer does return \<^verbatim>\<open>true\<close>, without setting an error
  before. \<open>done_at_first_call rs\<close>: its first call returns \<^verbatim>\<open>true\<close>. \<open>upto_done rs\<close> are
  the calls up to and including the first one that returns \<^verbatim>\<open>true\<close>.
\<close>

fun body :: "outcome list \<Rightarrow> bytes list" where
  "body [] = []"
| "body (Emit buffers done # rs) = buffers # (if done then [] else body rs)"
| "body (Suspended # rs) = body rs"
| "body (Failed e # rs) = []"

fun finishes :: "outcome list \<Rightarrow> bool" where
  "finishes [] = False"
| "finishes (Emit buffers done # rs) = (done \<or> finishes rs)"
| "finishes (Suspended # rs) = finishes rs"
| "finishes (Failed e # rs) = False"

fun done_at_first_call :: "outcome list \<Rightarrow> bool" where
  "done_at_first_call (Emit buffers done # rs) = done"
| "done_at_first_call _ = False"

fun upto_done :: "outcome list \<Rightarrow> outcome list" where
  "upto_done [] = []"
| "upto_done (r # rs) = (if is_done r then [r] else r # upto_done rs)"

text \<open>
  The buffer sequences handed to the stream while the body writer is suspended: after a
  call that suspended and before its resume context is invoked. The flag says whether
  the run is in such a stretch.
\<close>

fun suspended_writes :: "bool \<Rightarrow> event list \<Rightarrow> payload list" where
  "suspended_writes s [] = []"
| "suspended_writes s (Produce Suspended # es) = suspended_writes True es"
| "suspended_writes s (Resume # es) = suspended_writes False es"
| "suspended_writes s (Write p ec # es) =
     (if s then p # suspended_writes s es else suspended_writes s es)"
| "suspended_writes s (_ # es) = suspended_writes s es"

subsection \<open>Example messages\<close>

text \<open>
  A response header of 17 bytes, a chunked message, a content-length message that
  declares five bytes of body and asks for the connection to be closed, the same message
  with a failing \<^verbatim>\<open>wp.init\<close>, and a stream on which every write succeeds.
\<close>

definition ok_header :: bytes where
  "ok_header = ''HTTP/1.1 200 OK'' @ crlf"

definition chunked_msg :: write_preparation where
  "chunked_msg = \<lparr>chunked = True, close = False, sb = ok_header, init_ec = None, content_length = 0\<rparr>"

definition closing_msg :: write_preparation where
  "closing_msg = \<lparr>chunked = False, close = True, sb = ok_header, init_ec = None, content_length = 5\<rparr>"

definition rejected_msg :: write_preparation where
  "rejected_msg = closing_msg\<lparr>init_ec := Some (other_error 22)\<rparr>"

definition good_stream :: transport where
  "good_stream = (\<lambda>n. None)"

text \<open>A stream whose write number \<open>k\<close> fails with \<open>e\<close>.\<close>

definition failing_stream :: "nat \<Rightarrow> error \<Rightarrow> transport" where
  "failing_stream k e = (\<lambda>n. if n = k then Some e else None)"

subsection \<open>The states of \<^verbatim>\<open>write_op\<close>, one equation each\<close>

lemma write_op_ec [simp]: "write_op wp tr st sbuf n (Some e) rs = [Complete (Some e)]"
  by (subst write_op.simps) simp

lemma write_op_99 [simp]: "write_op wp tr 99 sbuf n ec rs = [Complete ec]"
  by (subst write_op.simps) simp

lemma write_op_0:
  "write_op wp tr 0 sbuf n None rs =
     Init (init_ec wp) #
     (case init_ec wp of
        Some e \<Rightarrow> [Enter, Complete (Some e)]
      | None \<Rightarrow> write_op wp tr 1 sbuf n None rs)"
  by (subst write_op.simps) (simp split: option.splits)

lemma write_op_1_Nil [simp]: "write_op wp tr 1 sbuf n None [] = []"
  by (subst write_op.simps) simp

lemma write_op_1_Cons:
  "write_op wp tr 1 sbuf n None (r # rs) =
     Produce r #
     (case r of
        Failed e \<Rightarrow> [Enter, Complete (Some e)]
      | Suspended \<Rightarrow> Resume # Enter # write_op wp tr 1 sbuf n None rs
      | Emit buffers done \<Rightarrow>
          Write (HeaderAndBody sbuf (body_buffers wp buffers)) (tr n) # Enter #
          write_op wp tr (if done then (if chunked wp then 4 else 5) else 2) sbuf (Suc n) (tr n) rs)"
  by (subst write_op.simps) (simp split: outcome.splits)

lemma write_op_2 [simp]:
  "write_op wp tr 2 sbuf n None rs = write_op wp tr 3 [] n None rs"
  by (subst write_op.simps) simp

lemma write_op_3_Nil [simp]: "write_op wp tr 3 sbuf n None [] = []"
  by (subst write_op.simps) simp

lemma write_op_3_Cons:
  "write_op wp tr 3 sbuf n None (r # rs) =
     Produce r #
     (case r of
        Failed e \<Rightarrow> [Complete (Some e)]
      | Suspended \<Rightarrow> Resume # Enter # write_op wp tr 3 sbuf n None rs
      | Emit buffers done \<Rightarrow>
          Write (BodyOnly (body_buffers wp buffers)) (tr n) # Enter #
          write_op wp tr (if done then (if chunked wp then 4 else 5) else 2) sbuf (Suc n) (tr n) rs)"
  by (subst write_op.simps) (simp split: outcome.splits)

lemma write_op_5 [simp]:
  "write_op wp tr 5 sbuf n None rs = [Complete (if close wp then Some eof else None)]"
  by (subst write_op.simps) simp

lemma write_op_4 [simp]:
  "write_op wp tr 4 sbuf n None rs =
     Write FinalChunk (tr n) # Enter #
     (case tr n of
        Some e \<Rightarrow> [Complete (Some e)]
      | None \<Rightarrow> [Complete (if close wp then Some eof else None)])"
  by (subst write_op.simps) (simp split: option.splits)

subsection \<open>Facts about the loops\<close>

lemma sync_concat:
  "(errors (write_outer wp tr sbuf n rs) = [] \<longrightarrow> completions (write_outer wp tr sbuf n rs) \<noteq> [] \<longrightarrow>
      concat (map wire (writes (write_outer wp tr sbuf n rs))) =
        sbuf @ concat (map (body_buffers wp) (slices (write_outer wp tr sbuf n rs))) @
        (if chunked wp then chunk_encode_final else []))
   \<and> (errors (write_inner wp tr n rs) = [] \<longrightarrow> completions (write_inner wp tr n rs) \<noteq> [] \<longrightarrow>
      concat (map wire (writes (write_inner wp tr n rs))) =
        concat (map (body_buffers wp) (slices (write_inner wp tr n rs))) @
        (if chunked wp then chunk_encode_final else []))"
  by (induction rs arbitrary: sbuf n)
     (auto simp: write_final_def split: outcome.splits option.splits)

lemma async_concat:
  "(errors (write_op wp tr 1 sbuf n None rs) = [] \<longrightarrow> completions (write_op wp tr 1 sbuf n None rs) \<noteq> [] \<longrightarrow>
      concat (map wire (writes (write_op wp tr 1 sbuf n None rs))) =
        sbuf @ concat (map (body_buffers wp) (slices (write_op wp tr 1 sbuf n None rs))) @
        (if chunked wp then chunk_encode_final else []))
   \<and> (errors (write_op wp tr 3 sbuf n None rs) = [] \<longrightarrow> completions (write_op wp tr 3 sbuf n None rs) \<noteq> [] \<longrightarrow>
      concat (map wire (writes (write_op wp tr 3 sbuf n None rs))) =
        concat (map (body_buffers wp) (slices (write_op wp tr 3 sbuf n None rs))) @
        (if chunked wp then chunk_encode_final else []))"
  by (induction rs arbitrary: sbuf n)
     (auto simp: write_op_1_Cons write_op_3_Cons split: outcome.splits option.splits)

lemma write_cases:
  "write wp tr rs =
     (case init_ec wp of
        Some e \<Rightarrow> [Init (Some e), Complete (Some e)]
      | None \<Rightarrow> Init None # write_outer wp tr (sb wp) 0 rs)"
  by (simp add: write_def split: option.splits)

lemma async_write_cases:
  "async_write wp tr rs =
     (case init_ec wp of
        Some e \<Rightarrow> [Enter, Init (Some e), Enter, Complete (Some e)]
      | None \<Rightarrow> Enter # Init None # write_op wp tr 1 (sb wp) 0 None rs)"
  by (simp add: async_write_def write_op_0 split: option.splits)

lemma sync_completions:
  "(errors (write_outer wp tr sbuf n rs) = [] \<longrightarrow>
      completions (write_outer wp tr sbuf n rs) = [] \<or>
      completions (write_outer wp tr sbuf n rs) = [if close wp then Some eof else None])
   \<and> (errors (write_inner wp tr n rs) = [] \<longrightarrow>
      completions (write_inner wp tr n rs) = [] \<or>
      completions (write_inner wp tr n rs) = [if close wp then Some eof else None])"
proof (induction rs arbitrary: sbuf n)
  case Nil
  show ?case by simp
next
  case (Cons r rs)
  show ?case
    using Cons.IH [of "[]" "Suc n"] Cons.IH [of "[]" n]
    by (cases r; cases "tr n"; cases "tr (Suc n)") (auto simp: write_final_def)
qed

lemma sync_failure:
  "(errors (write_outer wp tr sbuf n rs) = e # es \<longrightarrow>
      es = [] \<and> completions (write_outer wp tr sbuf n rs) = [Some e] \<and>
      writes (after_error (write_outer wp tr sbuf n rs)) = [] \<and>
      outcomes (after_error (write_outer wp tr sbuf n rs)) = [])
   \<and> (errors (write_inner wp tr n rs) = e # es \<longrightarrow>
      es = [] \<and> completions (write_inner wp tr n rs) = [Some e] \<and>
      writes (after_error (write_inner wp tr n rs)) = [] \<and>
      outcomes (after_error (write_inner wp tr n rs)) = [])"
proof (induction rs arbitrary: sbuf n)
  case Nil
  show ?case by simp
next
  case (Cons r rs)
  show ?case
    using Cons.IH [of "[]" "Suc n"] Cons.IH [of "[]" n]
    by (cases r; cases "tr n"; cases "tr (Suc n)") (auto simp: write_final_def)
qed

lemma async_completions:
  "(errors (write_op wp tr 1 sbuf n None rs) = [] \<longrightarrow>
      completions (write_op wp tr 1 sbuf n None rs) = [] \<or>
      completions (write_op wp tr 1 sbuf n None rs) = [if close wp then Some eof else None])
   \<and> (errors (write_op wp tr 3 sbuf n None rs) = [] \<longrightarrow>
      completions (write_op wp tr 3 sbuf n None rs) = [] \<or>
      completions (write_op wp tr 3 sbuf n None rs) = [if close wp then Some eof else None])"
proof (induction rs arbitrary: sbuf n)
  case Nil
  show ?case by simp
next
  case (Cons r rs)
  show ?case
    using Cons.IH [of "[]" "Suc n"] Cons.IH [of sbuf n]
    by (cases r; cases "tr n"; cases "tr (Suc n)") (auto simp: write_op_1_Cons write_op_3_Cons)
qed

lemma async_failure:
  "(errors (write_op wp tr 1 sbuf n None rs) = e # es \<longrightarrow>
      es = [] \<and> completions (write_op wp tr 1 sbuf n None rs) = [Some e] \<and>
      writes (after_error (write_op wp tr 1 sbuf n None rs)) = [] \<and>
      outcomes (after_error (write_op wp tr 1 sbuf n None rs)) = [])
   \<and> (errors (write_op wp tr 3 sbuf n None rs) = e # es \<longrightarrow>
      es = [] \<and> completions (write_op wp tr 3 sbuf n None rs) = [Some e] \<and>
      writes (after_error (write_op wp tr 3 sbuf n None rs)) = [] \<and>
      outcomes (after_error (write_op wp tr 3 sbuf n None rs)) = [])"
proof (induction rs arbitrary: sbuf n)
  case Nil
  show ?case by simp
next
  case (Cons r rs)
  show ?case
    using Cons.IH [of "[]" "Suc n"] Cons.IH [of sbuf n]
    by (cases r; cases "tr n"; cases "tr (Suc n)") (auto simp: write_op_1_Cons write_op_3_Cons)
qed

lemma after_done_Emit [simp]:
  "after_done (Produce (Emit buffers done) # es) = (if done then es else after_done es)"
  by (cases "done") simp_all

lemma before_done_Emit [simp]:
  "before_done (Produce (Emit buffers done) # es) =
     (if done then [] else Produce (Emit buffers done) # before_done es)"
  by (cases "done") simp_all

lemma inner_agree:
  "\<forall>r\<in>set rs. \<not> is_done r \<Longrightarrow>
     writes (write_inner wp tr n rs) = writes (write_op wp tr 3 sbuf n None rs)"
proof (induction rs arbitrary: n sbuf)
  case Nil
  show ?case by simp
next
  case (Cons r rs)
  then show ?case
    by (cases r; cases "tr n") (auto simp: write_op_3_Cons)
qed

lemma async_stops_at_done:
  "outcomes (after_done (write_op wp tr 1 sbuf n None rs)) = [] \<and>
   outcomes (after_done (write_op wp tr 3 sbuf n None rs)) = []"
proof (induction rs arbitrary: sbuf n)
  case Nil
  show ?case by simp
next
  case (Cons r rs)
  show ?case
    using Cons.IH [of "[]" "Suc n"] Cons.IH [of sbuf n]
    by (cases r; cases "tr n"; cases "tr (Suc n)") (auto simp: write_op_1_Cons write_op_3_Cons)
qed

lemma async_suspension:
  "(count_list (outcomes (write_op wp tr 1 sbuf n None rs)) Suspended
      \<le> count_list (write_op wp tr 1 sbuf n None rs) Enter \<and>
    suspended_writes False (write_op wp tr 1 sbuf n None rs) = [])
   \<and> (count_list (outcomes (write_op wp tr 3 sbuf n None rs)) Suspended
      \<le> count_list (write_op wp tr 3 sbuf n None rs) Enter \<and>
    suspended_writes False (write_op wp tr 3 sbuf n None rs) = [])"
proof (induction rs arbitrary: sbuf n)
  case Nil
  show ?case by simp
next
  case (Cons r rs)
  show ?case
    using Cons.IH [of "[]" "Suc n"] Cons.IH [of sbuf n]
    by (cases r; cases "tr n"; cases "tr (Suc n)") (auto simp: write_op_1_Cons write_op_3_Cons)
qed

lemma sync_final_chunk_not_before_done:
  "FinalChunk \<notin> set (writes (before_done (write_outer wp tr sbuf n rs))) \<and>
   FinalChunk \<notin> set (writes (before_done (write_inner wp tr n rs)))"
proof (induction rs arbitrary: sbuf n)
  case Nil
  show ?case by simp
next
  case (Cons r rs)
  show ?case
    using Cons.IH [of "[]" "Suc n"] Cons.IH [of "[]" n]
    by (cases r; cases "tr n") (simp_all add: write_final_def)
qed

lemma sync_final_chunk_at_most_once:
  "count_list (writes (write_outer wp tr sbuf n rs)) FinalChunk \<le> 1 \<and>
   count_list (writes (write_inner wp tr n rs)) FinalChunk \<le> 1"
proof (induction rs arbitrary: sbuf n)
  case Nil
  show ?case by simp
next
  case (Cons r rs)
  show ?case
    using Cons.IH [of "[]" "Suc n"] Cons.IH [of "[]" n]
    by (cases r; cases "tr n"; cases "tr (Suc n)") (simp_all add: write_final_def)
qed

lemma sync_final_chunk_not_plain:
  "\<not> chunked wp \<Longrightarrow>
   FinalChunk \<notin> set (writes (write_outer wp tr sbuf n rs)) \<and>
   FinalChunk \<notin> set (writes (write_inner wp tr n rs))"
proof (induction rs arbitrary: sbuf n)
  case Nil
  show ?case by simp
next
  case (Cons r rs)
  show ?case
    using Cons.IH [of "[]" "Suc n"] Cons.IH [of "[]" n] Cons.prems
    by (cases r; cases "tr n") (simp_all add: write_final_def)
qed

lemma sync_final_chunk_last:
  "chunked wp \<Longrightarrow>
   (errors (write_outer wp tr sbuf n rs) = [] \<longrightarrow>
      completions (write_outer wp tr sbuf n rs) \<noteq> [] \<longrightarrow>
      count_list (writes (write_outer wp tr sbuf n rs)) FinalChunk = 1 \<and>
      writes (write_outer wp tr sbuf n rs) \<noteq> [] \<and>
      last (writes (write_outer wp tr sbuf n rs)) = FinalChunk) \<and>
   (errors (write_inner wp tr n rs) = [] \<longrightarrow>
      completions (write_inner wp tr n rs) \<noteq> [] \<longrightarrow>
      count_list (writes (write_inner wp tr n rs)) FinalChunk = 1 \<and>
      writes (write_inner wp tr n rs) \<noteq> [] \<and>
      last (writes (write_inner wp tr n rs)) = FinalChunk)"
proof (induction rs arbitrary: sbuf n)
  case Nil
  show ?case by simp
next
  case (Cons r rs)
  show ?case
    using Cons.IH [of "[]" "Suc n"] Cons.IH [of "[]" n] Cons.prems
    by (cases r; cases "tr n"; cases "tr (Suc n)") (simp_all add: write_final_def)
qed

lemma async_final_chunk_not_before_done:
  "FinalChunk \<notin> set (writes (before_done (write_op wp tr 1 sbuf n None rs))) \<and>
   FinalChunk \<notin> set (writes (before_done (write_op wp tr 3 sbuf n None rs)))"
proof (induction rs arbitrary: sbuf n)
  case Nil
  show ?case by simp
next
  case (Cons r rs)
  show ?case
    using Cons.IH [of "[]" "Suc n"] Cons.IH [of sbuf n]
    by (cases r; cases "tr n") (simp_all add: write_op_1_Cons write_op_3_Cons)
qed

lemma async_final_chunk_at_most_once:
  "count_list (writes (write_op wp tr 1 sbuf n None rs)) FinalChunk \<le> 1 \<and>
   count_list (writes (write_op wp tr 3 sbuf n None rs)) FinalChunk \<le> 1"
proof (induction rs arbitrary: sbuf n)
  case Nil
  show ?case by simp
next
  case (Cons r rs)
  show ?case
    using Cons.IH [of "[]" "Suc n"] Cons.IH [of sbuf n]
    by (cases r; cases "tr n"; cases "tr (Suc n)") (simp_all add: write_op_1_Cons write_op_3_Cons)
qed

lemma async_final_chunk_not_plain:
  "\<not> chunked wp \<Longrightarrow>
   FinalChunk \<notin> set (writes (write_op wp tr 1 sbuf n None rs)) \<and>
   FinalChunk \<notin> set (writes (write_op wp tr 3 sbuf n None rs))"
proof (induction rs arbitrary: sbuf n)
  case Nil
  show ?case by simp
next
  case (Cons r rs)
  show ?case
    using Cons.IH [of "[]" "Suc n"] Cons.IH [of sbuf n] Cons.prems
    by (cases r; cases "tr n") (simp_all add: write_op_1_Cons write_op_3_Cons)
qed

lemma async_final_chunk_last:
  "chunked wp \<Longrightarrow>
   (errors (write_op wp tr 1 sbuf n None rs) = [] \<longrightarrow>
      completions (write_op wp tr 1 sbuf n None rs) \<noteq> [] \<longrightarrow>
      count_list (writes (write_op wp tr 1 sbuf n None rs)) FinalChunk = 1 \<and>
      writes (write_op wp tr 1 sbuf n None rs) \<noteq> [] \<and>
      last (writes (write_op wp tr 1 sbuf n None rs)) = FinalChunk) \<and>
   (errors (write_op wp tr 3 sbuf n None rs) = [] \<longrightarrow>
      completions (write_op wp tr 3 sbuf n None rs) \<noteq> [] \<longrightarrow>
      count_list (writes (write_op wp tr 3 sbuf n None rs)) FinalChunk = 1 \<and>
      writes (write_op wp tr 3 sbuf n None rs) \<noteq> [] \<and>
      last (writes (write_op wp tr 3 sbuf n None rs)) = FinalChunk)"
proof (induction rs arbitrary: sbuf n)
  case Nil
  show ?case by simp
next
  case (Cons r rs)
  show ?case
    using Cons.IH [of "[]" "Suc n"] Cons.IH [of sbuf n] Cons.prems
    by (cases r; cases "tr n"; cases "tr (Suc n)") (simp_all add: write_op_1_Cons write_op_3_Cons, blast+)
qed

lemma sync_later_writes_headerless:
  "(\<forall>q\<in>set (writes (write_outer wp tr [] n rs)). header_part q = []) \<and>
   (\<forall>q\<in>set (writes (write_inner wp tr n rs)). header_part q = [])"
proof (induction rs arbitrary: n)
  case Nil
  show ?case by simp
next
  case (Cons r rs)
  show ?case
    using Cons.IH [of "Suc n"] Cons.IH [of n]
    by (cases r; cases "tr n"; cases "tr (Suc n)") (simp_all add: write_final_def)
qed

lemma async_later_writes_headerless:
  "\<forall>q\<in>set (writes (write_op wp tr 3 sbuf n None rs)). header_part q = []"
proof (induction rs arbitrary: sbuf n)
  case Nil
  show ?case by simp
next
  case (Cons r rs)
  show ?case
    using Cons.IH [of "[]" "Suc n"] Cons.IH [of sbuf n]
    by (cases r; cases "tr n"; cases "tr (Suc n)") (simp_all add: write_op_3_Cons)
qed

lemma async_first_write:
  "writes (write_op wp tr 1 sbuf n None rs) = p # ps \<Longrightarrow>
     (\<exists>s ss. slices (write_op wp tr 1 sbuf n None rs) = s # ss \<and>
        p = HeaderAndBody sbuf (body_buffers wp s)) \<and>
     (\<forall>q\<in>set ps. header_part q = [])"
proof (induction rs arbitrary: n)
  case Nil
  then show ?case by simp
next
  case (Cons r rs)
  show ?case
  proof (cases r)
    case (Emit buffers d)
    with Cons.prems async_later_writes_headerless [of wp tr "[]" "Suc n" rs]
    show ?thesis
      by (cases "tr n"; cases "tr (Suc n)") (auto simp: write_op_1_Cons split: if_splits)
  next
    case Suspended
    with Cons.prems Cons.IH [of n] show ?thesis
      by (simp add: write_op_1_Cons)
  next
    case (Failed e)
    with Cons.prems show ?thesis by (simp add: write_op_1_Cons)
  qed
qed

lemma async_completed_has_written:
  "errors (write_op wp tr 1 sbuf n None rs) = [] \<Longrightarrow>
   completions (write_op wp tr 1 sbuf n None rs) \<noteq> [] \<Longrightarrow>
   writes (write_op wp tr 1 sbuf n None rs) \<noteq> []"
proof (induction rs arbitrary: n)
  case Nil
  then show ?case by simp
next
  case (Cons r rs)
  then show ?case
    by (cases r) (simp_all add: write_op_1_Cons)
qed

lemma sync_first_write:
  "writes (write_outer wp tr sbuf n rs) = p # ps \<Longrightarrow>
     (if first_suspends rs then p = HeaderOnly sbuf
      else \<exists>s ss. slices (write_outer wp tr sbuf n rs) = s # ss \<and>
        p = HeaderAndBody sbuf (body_buffers wp s)) \<and>
     (\<forall>q\<in>set ps. header_part q = [])"
proof (cases rs)
  case Nil
  assume "writes (write_outer wp tr sbuf n rs) = p # ps"
  with Nil show ?thesis by simp
next
  case (Cons r rs')
  assume "writes (write_outer wp tr sbuf n rs) = p # ps"
  with Cons sync_later_writes_headerless [of wp tr "Suc n" rs'] show ?thesis
    by (cases r; cases "tr n"; cases "tr (Suc n)") (auto simp: write_final_def split: if_splits)
qed

lemma sync_completed_has_written:
  "errors (write_outer wp tr sbuf n rs) = [] \<Longrightarrow>
   completions (write_outer wp tr sbuf n rs) \<noteq> [] \<Longrightarrow>
   writes (write_outer wp tr sbuf n rs) \<noteq> []"
  by (cases rs; cases "hd rs") (auto split: option.splits)

lemma sync_prefix:
  "prefix (write_outer wp tr sbuf n rs) (write_outer wp tr sbuf n (rs @ rs')) \<and>
   prefix (write_inner wp tr n rs) (write_inner wp tr n (rs @ rs'))"
proof (induction rs arbitrary: sbuf n)
  case Nil
  show ?case by simp
next
  case (Cons r rs)
  show ?case
    using Cons.IH [of "[]" "Suc n"] Cons.IH [of "[]" n]
    by (cases r; cases "tr n") simp_all
qed

lemma async_prefix:
  "prefix (write_op wp tr 1 sbuf n None rs) (write_op wp tr 1 sbuf n None (rs @ rs')) \<and>
   prefix (write_op wp tr 3 sbuf n None rs) (write_op wp tr 3 sbuf n None (rs @ rs'))"
proof (induction rs arbitrary: sbuf n)
  case Nil
  show ?case by simp
next
  case (Cons r rs)
  show ?case
    using Cons.IH [of "[]" "Suc n"] Cons.IH [of sbuf n]
    by (cases r; cases "tr n"; cases "tr (Suc n)") (simp_all add: write_op_1_Cons write_op_3_Cons)
qed

lemma async_whole_body:
  "(errors (write_op wp tr 1 sbuf n None rs) = [] \<longrightarrow>
      completions (write_op wp tr 1 sbuf n None rs) \<noteq> [] \<longrightarrow>
      finishes rs \<and>
      concat (map wire (writes (write_op wp tr 1 sbuf n None rs))) =
        sbuf @ concat (map (body_buffers wp) (body rs)) @
        (if chunked wp then chunk_encode_final else []))
   \<and> (errors (write_op wp tr 3 sbuf n None rs) = [] \<longrightarrow>
      completions (write_op wp tr 3 sbuf n None rs) \<noteq> [] \<longrightarrow>
      finishes rs \<and>
      concat (map wire (writes (write_op wp tr 3 sbuf n None rs))) =
        concat (map (body_buffers wp) (body rs)) @
        (if chunked wp then chunk_encode_final else []))"
proof (induction rs arbitrary: sbuf n)
  case Nil
  show ?case by simp
next
  case (Cons r rs)
  show ?case
    using Cons.IH [of "[]" "Suc n"] Cons.IH [of sbuf n]
    by (cases r; cases "tr n"; cases "tr (Suc n)") (simp_all add: write_op_1_Cons write_op_3_Cons)
qed

lemma async_completes:
  "finishes rs \<Longrightarrow> \<forall>m. tr m = None \<Longrightarrow>
   (errors (write_op wp tr 1 sbuf n None rs) = [] \<and>
    completions (write_op wp tr 1 sbuf n None rs) = [if close wp then Some eof else None]) \<and>
   (errors (write_op wp tr 3 sbuf n None rs) = [] \<and>
    completions (write_op wp tr 3 sbuf n None rs) = [if close wp then Some eof else None])"
proof (induction rs arbitrary: sbuf n)
  case Nil
  then show ?case by simp
next
  case (Cons r rs)
  show ?case
  proof (cases r)
    case (Emit buffers d)
    show ?thesis
    proof (cases d)
      case True
      with Emit Cons.prems(2) show ?thesis
        by (simp add: write_op_1_Cons write_op_3_Cons)
    next
      case False
      with Emit Cons.prems have "finishes rs" by simp
      from Cons.IH [OF this Cons.prems(2), of "[]" "Suc n"] Emit False Cons.prems(2)
      show ?thesis by (simp add: write_op_1_Cons write_op_3_Cons)
    qed
  next
    case Suspended
    with Cons.prems have "finishes rs" by simp
    from Cons.IH [OF this Cons.prems(2), of sbuf n] Suspended
    show ?thesis by (simp add: write_op_1_Cons write_op_3_Cons)
  next
    case (Failed e)
    with Cons.prems show ?thesis by simp
  qed
qed

lemma sync_first_call_body:
  "done_at_first_call rs \<Longrightarrow>
   errors (write_outer wp tr sbuf n rs) = [] \<Longrightarrow>
   completions (write_outer wp tr sbuf n rs) \<noteq> [] \<Longrightarrow>
   finishes rs \<and>
   concat (map wire (writes (write_outer wp tr sbuf n rs))) =
     sbuf @ concat (map (body_buffers wp) (body rs)) @
     (if chunked wp then chunk_encode_final else [])"
  by (cases rs rule: done_at_first_call.cases; cases "tr n"; cases "tr (Suc n)")
     (simp_all add: write_final_def)

lemma sync_first_call_completes:
  "done_at_first_call rs \<Longrightarrow> \<forall>m. tr m = None \<Longrightarrow>
   errors (write_outer wp tr sbuf n rs) = [] \<and>
   completions (write_outer wp tr sbuf n rs) = [if close wp then Some eof else None]"
  by (cases rs rule: done_at_first_call.cases) (simp_all add: write_final_def)

lemma writes_append: "writes (es @ es') = writes es @ writes es'"
  by (induction es rule: writes.induct) simp_all

lemma writes_prefix: "prefix es es' \<Longrightarrow> prefix (writes es) (writes es')"
  by (auto simp: prefix_def writes_append)

lemma upto_done_prefix: "prefix (upto_done rs) rs"
  by (induction rs) simp_all

lemma inner_through_done:
  "writes (write_op wp tr 3 sbuf n None rs) =
     writes (write_inner wp tr n (upto_done rs)) @
     (if chunked wp \<and> finishes rs \<and> errors (write_inner wp tr n (upto_done rs)) = []
      then [FinalChunk] else [])"
proof (induction rs arbitrary: sbuf n)
  case Nil
  show ?case by simp
next
  case (Cons r rs)
  show ?case
    using Cons.IH [of "[]" "Suc n"] Cons.IH [of sbuf n]
    by (cases r; cases "tr n"; cases "tr (Suc n)") (simp_all add: write_op_3_Cons)
qed

lemma inner_upto_done:
  "finishes rs \<Longrightarrow> \<forall>m. tr m = None \<Longrightarrow>
   errors (write_inner wp tr n (upto_done rs)) = [] \<and>
   concat (map wire (writes (write_inner wp tr n (upto_done rs)))) =
     concat (map (body_buffers wp) (body rs))"
proof (induction rs arbitrary: n)
  case Nil
  then show ?case by simp
next
  case (Cons r rs)
  show ?case
  proof (cases r)
    case (Emit buffers d)
    with Cons.prems Cons.IH [of "Suc n"] show ?thesis by (cases d) simp_all
  next
    case Suspended
    with Cons.prems Cons.IH [of n] show ?thesis by simp
  next
    case (Failed e)
    with Cons.prems show ?thesis by simp
  qed
qed

lemma inner_completed_has_emitted:
  "errors (write_inner wp tr n rs) = [] \<Longrightarrow> completions (write_inner wp tr n rs) \<noteq> [] \<Longrightarrow>
   slices (write_inner wp tr n rs) \<noteq> []"
proof (induction rs arbitrary: n)
  case Nil
  then show ?case by simp
next
  case (Cons r rs)
  then show ?case by (cases r) simp_all
qed

lemma outer_completed_has_emitted:
  "errors (write_outer wp tr sbuf n rs) = [] \<Longrightarrow> completions (write_outer wp tr sbuf n rs) \<noteq> [] \<Longrightarrow>
   slices (write_outer wp tr sbuf n rs) \<noteq> []"
proof (cases rs)
  case Nil
  assume "completions (write_outer wp tr sbuf n rs) \<noteq> []"
  with Nil show ?thesis by simp
next
  case (Cons r rs')
  assume "errors (write_outer wp tr sbuf n rs) = []" "completions (write_outer wp tr sbuf n rs) \<noteq> []"
  with Cons inner_completed_has_emitted [of wp tr "Suc n" rs'] show ?thesis
    by (cases r; cases "tr n") simp_all
qed

lemma inner_slices_beyond_body:
  "finishes rs \<Longrightarrow> errors (write_inner wp tr n rs) = [] \<Longrightarrow>
   completions (write_inner wp tr n rs) \<noteq> [] \<Longrightarrow>
   \<exists>x xs. slices (write_inner wp tr n rs) = body rs @ x # xs"
proof (induction rs arbitrary: n)
  case Nil
  then show ?case by simp
next
  case (Cons r rs)
  show ?case
  proof (cases r)
    case (Emit buffers d)
    show ?thesis
    proof (cases "tr n")
      case (Some e)
      with Emit Cons.prems show ?thesis by simp
    next
      case None
      show ?thesis
      proof (cases d)
        case True
        with Emit None Cons.prems
        have "errors (write_outer wp tr [] (Suc n) rs) = []"
          "completions (write_outer wp tr [] (Suc n) rs) \<noteq> []" by simp_all
        from outer_completed_has_emitted [OF this]
        obtain x xs where "slices (write_outer wp tr [] (Suc n) rs) = x # xs"
          by (cases "slices (write_outer wp tr [] (Suc n) rs)") auto
        with Emit None True show ?thesis by simp
      next
        case False
        with Emit None Cons.prems Cons.IH [of "Suc n"] show ?thesis by simp
      qed
    qed
  next
    case Suspended
    with Cons.prems Cons.IH [of n] show ?thesis by simp
  next
    case (Failed e)
    with Cons.prems show ?thesis by simp
  qed
qed

lemma chunk_encode_not_empty: "chunk_encode buffers \<noteq> []"
  by (simp add: chunk_encode_def crlf_def)

subsection \<open>Facts about whole runs\<close>

lemma run_concat:
  assumes "T = write wp tr rs \<or> T = async_write wp tr rs"
    and "errors T = []" and "completions T \<noteq> []"
  shows "concat (map wire (writes T)) =
           sb wp @ concat (map (body_buffers wp) (slices T)) @
           (if chunked wp then chunk_encode_final else [])"
proof (cases "init_ec wp")
  case None
  from assms(1) show ?thesis
  proof
    assume T: "T = write wp tr rs"
    with None assms(2,3) sync_concat [of wp tr "sb wp" 0 rs]
    show ?thesis by (simp add: write_cases)
  next
    assume T: "T = async_write wp tr rs"
    with None assms(2,3) async_concat [of wp tr "sb wp" 0 rs]
    show ?thesis by (simp add: async_write_cases)
  qed
next
  case (Some e)
  with assms show ?thesis by (auto simp: write_cases async_write_cases)
qed

lemma run_completions:
  assumes "T = write wp tr rs \<or> T = async_write wp tr rs" and "errors T = []"
  shows "completions T = [] \<or> completions T = [if close wp then Some eof else None]"
proof (cases "init_ec wp")
  case None
  from assms(1) show ?thesis
  proof
    assume T: "T = write wp tr rs"
    with None assms(2) sync_completions [of wp tr "sb wp" 0 rs]
    show ?thesis by (simp add: write_cases)
  next
    assume T: "T = async_write wp tr rs"
    with None assms(2) async_completions [of wp tr "sb wp" 0 rs]
    show ?thesis by (simp add: async_write_cases)
  qed
next
  case (Some e)
  with assms show ?thesis by (auto simp: write_cases async_write_cases)
qed

lemma run_failure:
  assumes "T = write wp tr rs \<or> T = async_write wp tr rs" and "errors T = e # es"
  shows "es = [] \<and> completions T = [Some e] \<and>
         writes (after_error T) = [] \<and> outcomes (after_error T) = []"
proof (cases "init_ec wp")
  case None
  from assms(1) show ?thesis
  proof
    assume T: "T = write wp tr rs"
    with None assms(2) sync_failure [of wp tr "sb wp" 0 rs e es]
    show ?thesis by (simp add: write_cases)
  next
    assume T: "T = async_write wp tr rs"
    with None assms(2) async_failure [of wp tr "sb wp" 0 rs e es]
    show ?thesis by (simp add: async_write_cases)
  qed
next
  case (Some e')
  with assms show ?thesis by (auto simp: write_cases async_write_cases)
qed

lemma init_failure_no_writes:
  assumes "T = write wp tr rs \<or> T = async_write wp tr rs" and "init_ec wp \<noteq> None"
  shows "writes T = []"
  using assms by (auto simp: write_cases async_write_cases)

lemma write_not_async_write: "write wp tr rs \<noteq> async_write wp' tr' rs'"
  by (simp add: write_def async_write_def)

lemma async_write_stops_at_done:
  "outcomes (after_done (async_write wp tr rs)) = []"
  using async_stops_at_done [of wp tr "sb wp" 0 rs]
  by (simp add: async_write_cases split: option.splits)

text \<open>
  A run on a longer list of outcomes extends the run on a shorter one: what an engine has
  done after the first calls of the body writer does not depend on the later ones.
\<close>

lemma write_prefix: "prefix (write wp tr rs) (write wp tr (rs @ rs'))"
  using sync_prefix [of wp tr "sb wp" 0 rs rs']
  by (simp add: write_cases split: option.splits)

lemma async_write_prefix: "prefix (async_write wp tr rs) (async_write wp tr (rs @ rs'))"
  using async_prefix [of wp tr "sb wp" 0 rs rs']
  by (simp add: async_write_cases split: option.splits)

text \<open>
  The whole body. When the asynchronous engine, or the synchronous engine with a body
  that is done at the first call of the body writer, completes without error, the body
  writer has delivered its whole body and the bytes handed to the stream are the header,
  each slice of the body (chunk-encoded for a chunked message) and, for a chunked
  message, the final chunk; and with collaborators that raise no error the write does
  complete without error.
\<close>

lemma run_whole_body:
  assumes "T = async_write wp tr rs \<or> (T = write wp tr rs \<and> done_at_first_call rs)"
    and "errors T = []" and "completions T \<noteq> []"
  shows "finishes rs \<and>
         concat (map wire (writes T)) =
           sb wp @ concat (map (body_buffers wp) (body rs)) @
           (if chunked wp then chunk_encode_final else [])"
proof (cases "init_ec wp")
  case None
  from assms(1) show ?thesis
  proof
    assume "T = async_write wp tr rs"
    with None have T: "T = Enter # Init None # write_op wp tr 1 (sb wp) 0 None rs"
      by (simp add: async_write_cases)
    from assms(2,3) async_whole_body [of wp tr "sb wp" 0 rs] show ?thesis
      unfolding T by simp
  next
    assume A: "T = write wp tr rs \<and> done_at_first_call rs"
    then have D: "done_at_first_call rs" by simp
    from A None have T: "T = Init None # write_outer wp tr (sb wp) 0 rs"
      by (simp add: write_cases)
    from assms(2,3) sync_first_call_body [OF D, of wp tr "sb wp" 0] show ?thesis
      unfolding T by simp
  qed
next
  case (Some e)
  with assms(1) have "errors T \<noteq> []"
    by (auto simp: write_cases async_write_cases)
  with assms(2) show ?thesis by simp
qed

lemma run_completes:
  assumes "T = async_write wp tr rs \<or> (T = write wp tr rs \<and> done_at_first_call rs)"
    and "init_ec wp = None" and "finishes rs" and "\<forall>m. tr m = None"
  shows "errors T = [] \<and> completions T = [if close wp then Some eof else None]"
  using assms(1)
proof
  assume "T = async_write wp tr rs"
  with assms(2) have T: "T = Enter # Init None # write_op wp tr 1 (sb wp) 0 None rs"
    by (simp add: async_write_cases)
  from async_completes [OF assms(3,4), of wp "sb wp" 0] show ?thesis
    unfolding T by simp
next
  assume A: "T = write wp tr rs \<and> done_at_first_call rs"
  then have D: "done_at_first_call rs" by simp
  from A assms(2) have T: "T = Init None # write_outer wp tr (sb wp) 0 rs"
    by (simp add: write_cases)
  from sync_first_call_completes [OF D assms(4), of wp "sb wp" 0] show ?thesis
    unfolding T by simp
qed

text \<open>
  The synchronous engine up to the call with which the body writer is done: with
  collaborators that raise no error it has by then handed the header and each slice of the
  body to the stream, and this is the start of whatever it writes in a longer run.
\<close>

lemma write_upto_done:
  assumes "init_ec wp = None" and "finishes rs" and "\<forall>m. tr m = None"
  shows "errors (write wp tr (upto_done rs)) = [] \<and>
         concat (map wire (writes (write wp tr (upto_done rs)))) =
           sb wp @ concat (map (body_buffers wp) (body rs)) @
           (if chunked wp \<and> done_at_first_call rs then chunk_encode_final else [])"
proof (cases rs)
  case Nil
  with assms(2) show ?thesis by simp
next
  case (Cons r rs')
  show ?thesis
  proof (cases r)
    case (Emit buffers d)
    show ?thesis
    proof (cases d)
      case True
      with Emit Cons assms(1,3) show ?thesis by (simp add: write_cases write_final_def)
    next
      case False
      with Emit Cons assms(2) have "finishes rs'" by simp
      from inner_upto_done [where tr = tr and wp = wp and n = "Suc 0", OF this assms(3)] Emit False Cons assms(1,3)
      show ?thesis by (simp add: write_cases)
    qed
  next
    case Suspended
    with Cons assms(2) have "finishes rs'" by simp
    from inner_upto_done [where tr = tr and wp = wp and n = "Suc 0", OF this assms(3)] Suspended Cons assms(1,3)
    show ?thesis by (simp add: write_cases)
  next
    case (Failed e)
    with Cons assms(2) show ?thesis by simp
  qed
qed

lemma write_upto_done_prefix:
  "prefix (writes (write wp tr (upto_done rs))) (writes (write wp tr rs))"
proof -
  from upto_done_prefix [of rs] obtain rest where "rs = upto_done rs @ rest"
    by (auto simp: prefix_def)
  with write_prefix [of wp tr "upto_done rs" rest] show ?thesis
    by (simp add: writes_prefix)
qed

text \<open>
  The asynchronous engine writes what the synchronous engine has written when the body
  writer is done, and then the final chunk of a chunked message, provided that the first
  call of the body writer does not suspend.
\<close>

lemma through_done:
  assumes "\<not> first_suspends rs"
  shows "writes (async_write wp tr rs) =
           writes (write wp tr (upto_done rs)) @
           (if chunked wp \<and> \<not> done_at_first_call rs \<and> finishes rs \<and>
               errors (write wp tr (upto_done rs)) = []
            then [FinalChunk] else [])"
proof (cases "init_ec wp")
  case (Some e)
  then show ?thesis by (simp add: write_cases async_write_cases)
next
  case None
  show ?thesis
  proof (cases rs)
    case Nil
    with None show ?thesis by (simp add: write_cases async_write_cases)
  next
    case (Cons r rs')
    with assms have ns: "r \<noteq> Suspended" by auto
    from ns inner_through_done [of wp tr "[]" "Suc 0" rs'] Cons None show ?thesis
      by (cases r; cases "tr 0"; cases "tr (Suc 0)")
         (simp_all add: write_cases async_write_cases write_op_1_Cons write_final_def)
  qed
qed

text \<open>
  The synchronous engine and a body that is done at a later call than the first: when
  such a write completes without error, the body writer has been called after it was
  done and has emitted at least one more slice, so that for a chunked message the bytes
  on the stream are never the header, the chunks of the body and the final chunk.
\<close>

lemma write_later_done_slices:
  assumes "finishes rs" and "\<not> done_at_first_call rs"
    and "errors (write wp tr rs) = []" and "completions (write wp tr rs) \<noteq> []"
  shows "\<exists>x xs. slices (write wp tr rs) = body rs @ x # xs"
proof (cases "init_ec wp")
  case (Some e)
  with assms(3) show ?thesis by (simp add: write_cases)
next
  case None
  show ?thesis
  proof (cases rs)
    case Nil
    with assms(1) show ?thesis by simp
  next
    case (Cons r rs')
    show ?thesis
    proof (cases r)
      case (Emit buffers d)
      with Cons assms(2) have d: "\<not> d" by simp
      show ?thesis
      proof (cases "tr 0")
        case (Some e)
        with Emit Cons None assms(3) show ?thesis by (simp add: write_cases)
      next
        case N: None
        with Emit d Cons None assms inner_slices_beyond_body [of rs' wp tr "Suc 0"]
        show ?thesis by (simp add: write_cases)
      qed
    next
      case Suspended
      show ?thesis
      proof (cases "tr 0")
        case (Some e)
        with Suspended Cons None assms(3) show ?thesis by (simp add: write_cases)
      next
        case N: None
        with Suspended Cons None assms inner_slices_beyond_body [of rs' wp tr "Suc 0"]
        show ?thesis by (simp add: write_cases)
      qed
    next
      case (Failed e)
      with Cons assms(1) show ?thesis by simp
    qed
  qed
qed

lemma write_later_done_never_right:
  assumes "chunked wp" and "finishes rs" and "\<not> done_at_first_call rs"
    and "errors (write wp tr rs) = []" and "completions (write wp tr rs) \<noteq> []"
  shows "concat (map wire (writes (write wp tr rs))) \<noteq>
           sb wp @ concat (map chunk_encode (body rs)) @ chunk_encode_final"
proof -
  from write_later_done_slices [OF assms(2-5)]
  obtain x xs where S: "slices (write wp tr rs) = body rs @ x # xs" by blast
  have B: "body_buffers wp = chunk_encode"
    using assms(1) by (simp add: body_buffers_def fun_eq_iff)
  from run_concat [OF _ assms(4,5), of wp tr rs] assms(1)
  have "concat (map wire (writes (write wp tr rs))) =
          sb wp @ concat (map chunk_encode (body rs)) @
          chunk_encode x @ concat (map chunk_encode xs) @ chunk_encode_final"
    by (simp add: S B)
  with chunk_encode_not_empty [of x] show ?thesis by simp
qed

text \<open>
  The final chunk in any run of either engine.
\<close>

lemma final_chunk_facts:
  assumes "T = write wp tr rs \<or> T = async_write wp tr rs"
  shows "FinalChunk \<notin> set (writes (before_done T)) \<and>
         count_list (writes T) FinalChunk \<le> 1 \<and>
         (\<not> chunked wp \<longrightarrow> FinalChunk \<notin> set (writes T)) \<and>
         (chunked wp \<longrightarrow> errors T = [] \<longrightarrow> completions T \<noteq> [] \<longrightarrow>
            count_list (writes T) FinalChunk = 1 \<and> last (writes T) = FinalChunk)"
proof (cases "init_ec wp")
  case None
  from assms show ?thesis
  proof
    assume "T = write wp tr rs"
    with None have T: "T = Init None # write_outer wp tr (sb wp) 0 rs"
      by (simp add: write_cases)
    from sync_final_chunk_not_before_done [of wp tr "sb wp" 0 rs]
      sync_final_chunk_at_most_once [of wp tr "sb wp" 0 rs]
      sync_final_chunk_not_plain [of wp tr "sb wp" 0 rs]
      sync_final_chunk_last [of wp tr "sb wp" 0 rs]
    show ?thesis unfolding T by simp
  next
    assume "T = async_write wp tr rs"
    with None have T: "T = Enter # Init None # write_op wp tr 1 (sb wp) 0 None rs"
      by (simp add: async_write_cases)
    from async_final_chunk_not_before_done [of wp tr "sb wp" 0 rs]
      async_final_chunk_at_most_once [of wp tr "sb wp" 0 rs]
      async_final_chunk_not_plain [of wp tr "sb wp" 0 rs]
      async_final_chunk_last [of wp tr "sb wp" 0 rs]
    show ?thesis unfolding T by simp
  qed
next
  case (Some e)
  with assms have "T = [Init (Some e), Complete (Some e)] \<or>
      T = [Enter, Init (Some e), Enter, Complete (Some e)]"
    by (auto simp: write_cases async_write_cases)
  then show ?thesis by auto
qed

subsection \<open>Runs of the example messages\<close>

lemma hello_world_async:
  "async_write chunked_msg good_stream [Emit ''hello'' False, Emit ''world'' True] =
     [Enter, Init None, Produce (Emit ''hello'' False),
      Write (HeaderAndBody ok_header (chunk_encode ''hello'')) None, Enter,
      Produce (Emit ''world'' True),
      Write (BodyOnly (chunk_encode ''world'')) None, Enter,
      Write FinalChunk None, Enter, Complete None]"
  by (simp add: async_write_cases chunked_msg_def good_stream_def write_op_1_Cons write_op_3_Cons
      body_buffers_def)

lemma plain_sync:
  "write closing_msg good_stream [Emit ''he'' False, Suspended, Emit ''llo'' True, Emit [] True] =
     [Init None, Produce (Emit ''he'' False), Write (HeaderAndBody ok_header ''he'') None,
      Produce Suspended, Resume,
      Produce (Emit ''llo'' True), Write (BodyOnly ''llo'') None,
      Produce (Emit [] True), Write (HeaderAndBody [] []) None, Complete (Some eof)]"
  by (simp add: write_cases closing_msg_def good_stream_def write_final_def body_buffers_def)

lemma second_produce_fails:
  "async_write closing_msg good_stream [Emit ''hello'' False, Failed (other_error 7)] =
     [Enter, Init None, Produce (Emit ''hello'' False),
      Write (HeaderAndBody ok_header ''hello'') None, Enter,
      Produce (Failed (other_error 7)), Complete (Some (other_error 7))]"
  by (simp add: async_write_cases closing_msg_def good_stream_def write_op_1_Cons write_op_3_Cons
      body_buffers_def)

lemma closing_sync:
  "write closing_msg good_stream [Emit ''hello'' True] =
     [Init None, Produce (Emit ''hello'' True), Write (HeaderAndBody ok_header ''hello'') None,
      Complete (Some eof)]"
  by (simp add: write_cases closing_msg_def good_stream_def write_final_def body_buffers_def)

lemma closing_stream_fails:
  "write closing_msg (failing_stream (Suc 0) (other_error 32)) [Emit ''he'' False, Emit ''llo'' True] =
     [Init None, Produce (Emit ''he'' False), Write (HeaderAndBody ok_header ''he'') None,
      Produce (Emit ''llo'' True), Write (BodyOnly ''llo'') (Some (other_error 32)),
      Complete (Some (other_error 32))]"
  by (simp add: write_cases closing_msg_def failing_stream_def write_final_def body_buffers_def)

lemma header_alone_sync:
  "write closing_msg good_stream [Suspended, Emit ''hello'' True, Emit [] True] =
     [Init None, Produce Suspended, Write (HeaderOnly ok_header) None, Resume,
      Produce (Emit ''hello'' True), Write (BodyOnly ''hello'') None,
      Produce (Emit [] True), Write (HeaderAndBody [] []) None, Complete (Some eof)]"
  by (simp add: write_cases closing_msg_def good_stream_def write_final_def body_buffers_def)

lemma again_sync:
  "write chunked_msg good_stream [Emit ''hello'' False, Emit ''world'' True, Emit ''again'' True] =
     [Init None, Produce (Emit ''hello'' False),
      Write (HeaderAndBody ok_header (chunk_encode ''hello'')) None,
      Produce (Emit ''world'' True), Write (BodyOnly (chunk_encode ''world'')) None,
      Produce (Emit ''again'' True), Write (HeaderAndBody [] (chunk_encode ''again'')) None,
      Write FinalChunk None, Complete None]"
  by (simp add: write_cases chunked_msg_def good_stream_def write_final_def body_buffers_def)

lemma again_async:
  "async_write chunked_msg good_stream [Emit ''hello'' False, Emit ''world'' True, Emit ''again'' True] =
     [Enter, Init None, Produce (Emit ''hello'' False),
      Write (HeaderAndBody ok_header (chunk_encode ''hello'')) None, Enter,
      Produce (Emit ''world'' True),
      Write (BodyOnly (chunk_encode ''world'')) None, Enter,
      Write FinalChunk None, Enter, Complete None]"
  by (simp add: async_write_cases chunked_msg_def good_stream_def write_op_1_Cons write_op_3_Cons
      body_buffers_def)

lemma suspended_body_async:
  "async_write closing_msg good_stream [Emit ''he'' False, Suspended, Emit ''llo'' True] =
     [Enter, Init None, Produce (Emit ''he'' False),
      Write (HeaderAndBody ok_header ''he'') None, Enter,
      Produce Suspended, Resume, Enter,
      Produce (Emit ''llo'' True), Write (BodyOnly ''llo'') None, Enter,
      Complete (Some eof)]"
  by (simp add: async_write_cases closing_msg_def good_stream_def write_op_1_Cons write_op_3_Cons
      body_buffers_def)

lemma suspended_body_sync:
  "write closing_msg good_stream [Emit ''he'' False, Suspended, Emit ''llo'' True] =
     [Init None, Produce (Emit ''he'' False), Write (HeaderAndBody ok_header ''he'') None,
      Produce Suspended, Resume,
      Produce (Emit ''llo'' True), Write (BodyOnly ''llo'') None]"
  by (simp add: write_cases closing_msg_def good_stream_def write_final_def body_buffers_def)

lemma chunked_first_call_sync:
  "write chunked_msg good_stream [Emit ''hello'' True] =
     [Init None, Produce (Emit ''hello'' True),
      Write (HeaderAndBody ok_header (chunk_encode ''hello'')) None,
      Write FinalChunk None, Complete None]"
  by (simp add: write_cases chunked_msg_def good_stream_def write_final_def body_buffers_def)

lemma empty_slice_after_suspension_async:
  "async_write chunked_msg good_stream [Suspended, Emit [] True] =
     [Enter, Init None, Produce Suspended, Resume, Enter,
      Produce (Emit [] True), Write (HeaderAndBody ok_header (chunk_encode [])) None, Enter,
      Write FinalChunk None, Enter, Complete None]"
  by (simp add: async_write_cases chunked_msg_def good_stream_def write_op_1_Cons write_op_3_Cons
      body_buffers_def)

lemma empty_slice_after_suspension_sync:
  "write chunked_msg good_stream [Suspended, Emit [] True, Emit [] True] =
     [Init None, Produce Suspended, Write (HeaderOnly ok_header) None, Resume,
      Produce (Emit [] True), Write (BodyOnly (chunk_encode [])) None,
      Produce (Emit [] True), Write (HeaderAndBody [] (chunk_encode [])) None,
      Write FinalChunk None, Complete None]"
  by (simp add: write_cases chunked_msg_def good_stream_def write_final_def body_buffers_def)

lemma header_alone_async:
  "async_write closing_msg good_stream [Suspended, Emit ''hello'' True, Emit [] True] =
     [Enter, Init None, Produce Suspended, Resume, Enter,
      Produce (Emit ''hello'' True), Write (HeaderAndBody ok_header ''hello'') None, Enter,
      Complete (Some eof)]"
  by (simp add: async_write_cases closing_msg_def good_stream_def write_op_1_Cons write_op_3_Cons
      body_buffers_def)

lemma three_calls_sync:
  "write chunked_msg good_stream [Emit ''he'' False, Suspended, Emit ''llo'' True] =
     [Init None, Produce (Emit ''he'' False),
      Write (HeaderAndBody ok_header (chunk_encode ''he'')) None,
      Produce Suspended, Resume,
      Produce (Emit ''llo'' True), Write (BodyOnly (chunk_encode ''llo'')) None]"
  by (simp add: write_cases chunked_msg_def good_stream_def write_final_def body_buffers_def)

lemma four_calls_sync:
  "write chunked_msg good_stream
      [Emit ''he'' False, Suspended, Emit ''llo'' True, Emit ''again'' True] =
     [Init None, Produce (Emit ''he'' False),
      Write (HeaderAndBody ok_header (chunk_encode ''he'')) None,
      Produce Suspended, Resume,
      Produce (Emit ''llo'' True), Write (BodyOnly (chunk_encode ''llo'')) None,
      Produce (Emit ''again'' True), Write (HeaderAndBody [] (chunk_encode ''again'')) None,
      Write FinalChunk None, Complete None]"
  by (simp add: write_cases chunked_msg_def good_stream_def write_final_def body_buffers_def)

section \<open>The claims\<close>

text \<open>
  C1. For every chunked message whose write completes without error, the payloads
  handed to the stream concatenate to the serialized header, the chunk-encoded form of
  each slice of the body in the order in which the body writer emitted them, and the
  final chunk \<^verbatim>\<open>0 CR LF CR LF\<close>, however often the body writer suspends. \<^verbatim>\<open>write_op\<close> does
  so for every body (\<open>run_whole_body\<close>, \<open>run_completes\<close>), and so does \<^verbatim>\<open>write\<close> for a body
  that is done at the first call of the body writer. For any other body \<^verbatim>\<open>write\<close> calls
  the body writer again after it is done (the \<^verbatim>\<open>break\<close> of line 345 leaves the inner loop
  only) and writes what that call emits as one more chunk before the final chunk
  (\<open>write_later_done_never_right\<close>). Below, the body is \<^verbatim>\<open>hello\<close>, \<^verbatim>\<open>world\<close>; the third call
  emits \<^verbatim>\<open>again\<close>, which \<^verbatim>\<open>write\<close> puts on the stream and \<^verbatim>\<open>write_op\<close> never asks for.
\<close>

theorem write_sends_slice_after_done:
  "body [Emit ''hello'' False, Emit ''world'' True, Emit ''again'' True] = [''hello'', ''world''] \<and>
   errors (write chunked_msg good_stream
      [Emit ''hello'' False, Emit ''world'' True, Emit ''again'' True]) = [] \<and>
   completions (write chunked_msg good_stream
      [Emit ''hello'' False, Emit ''world'' True, Emit ''again'' True]) = [None] \<and>
   concat (map wire (writes (write chunked_msg good_stream
      [Emit ''hello'' False, Emit ''world'' True, Emit ''again'' True]))) =
     ok_header @ chunk_encode ''hello'' @ chunk_encode ''world'' @ chunk_encode ''again'' @
     chunk_encode_final \<and>
   concat (map wire (writes (write chunked_msg good_stream
      [Emit ''hello'' False, Emit ''world'' True, Emit ''again'' True]))) \<noteq>
     ok_header @ chunk_encode ''hello'' @ chunk_encode ''world'' @ chunk_encode_final \<and>
   concat (map wire (writes (async_write chunked_msg good_stream
      [Emit ''hello'' False, Emit ''world'' True, Emit ''again'' True]))) =
     ok_header @ chunk_encode ''hello'' @ chunk_encode ''world'' @ chunk_encode_final"
  by (simp add: again_sync again_async chunk_encode_not_empty)

text \<open>
  C2, as stated: for every message and every body writer the two engines hand the same
  sequence of payloads to the stream. When the first call of the body writer suspends,
  \<^verbatim>\<open>write\<close> sends the header at once, as a write of its own (line 319), whereas
  \<^verbatim>\<open>write_op\<close> keeps it for the write that carries the first slice.
\<close>

theorem engines_differ_after_suspension:
  "map wire (writes (write closing_msg good_stream [Suspended, Emit ''hello'' True, Emit [] True])) =
     [ok_header, ''hello'', []] \<and>
   map wire (writes (async_write closing_msg good_stream [Suspended, Emit ''hello'' True, Emit [] True])) =
     [ok_header @ ''hello''] \<and>
   map wire (writes (write closing_msg good_stream [Suspended, Emit ''hello'' True, Emit [] True])) \<noteq>
   map wire (writes (async_write closing_msg good_stream [Suspended, Emit ''hello'' True, Emit [] True]))"
  by (simp add: write_cases async_write_cases closing_msg_def good_stream_def write_final_def
      body_buffers_def write_op_1_Cons write_op_3_Cons)

text \<open>
  C2, amended. For every message and every body writer whose first call does not
  suspend, the two engines hand the same payloads, with the same bytes and in the same
  order, to the stream up to and including the write that carries the slice with which
  the body writer reports that it is done: what \<^verbatim>\<open>write\<close> has written by then is the start
  of all it writes, and it is all that \<^verbatim>\<open>write_op\<close> writes apart from the final chunk of
  a chunked message. When the body writer is done at its first call, or at none of the
  later calls, the two sequences of payloads are the same altogether. When the first
  call of the body writer suspends (and \<^verbatim>\<open>wp.init\<close> has succeeded), \<^verbatim>\<open>write\<close> sends the
  header at once, as a write of its own, whereas the first write of \<^verbatim>\<open>write_op\<close> is the
  header together with a slice of the body. Whether or not the first call suspends, when
  no collaborator raises an error and the body writer gets done, the bytes that
  \<^verbatim>\<open>write_op\<close> hands to the stream are those that \<^verbatim>\<open>write\<close> has handed to it when the body
  writer is done, followed by the final chunk of a chunked message where \<^verbatim>\<open>write\<close> has
  not written it yet.
\<close>

theorem engines_agree:
  "(\<not> first_suspends rs \<longrightarrow>
      prefix (writes (write wp tr (upto_done rs))) (writes (write wp tr rs)) \<and>
      writes (async_write wp tr rs) =
        writes (write wp tr (upto_done rs)) @
        (if chunked wp \<and> \<not> done_at_first_call rs \<and> finishes rs \<and>
            errors (write wp tr (upto_done rs)) = []
         then [FinalChunk] else []) \<and>
      (done_at_first_call rs \<or> (\<forall>r\<in>set (tl rs). \<not> is_done r) \<longrightarrow>
         writes (write wp tr rs) = writes (async_write wp tr rs) \<and>
         map wire (writes (write wp tr rs)) = map wire (writes (async_write wp tr rs)))) \<and>
   (first_suspends rs \<longrightarrow> init_ec wp = None \<longrightarrow>
      (\<exists>ps. writes (write wp tr rs) = HeaderOnly (sb wp) # ps) \<and>
      (\<forall>p ps. writes (async_write wp tr rs) = p # ps \<longrightarrow> (\<exists>b. p = HeaderAndBody (sb wp) b))) \<and>
   (init_ec wp = None \<longrightarrow> finishes rs \<longrightarrow> (\<forall>m. tr m = None) \<longrightarrow>
      concat (map wire (writes (async_write wp tr rs))) =
        concat (map wire (writes (write wp tr (upto_done rs)))) @
        (if chunked wp \<and> \<not> done_at_first_call rs then chunk_encode_final else []))"
proof -
  have 1: "writes (write wp tr rs) = writes (async_write wp tr rs)"
    if ns: "\<not> first_suspends rs"
      and d: "done_at_first_call rs \<or> (\<forall>r\<in>set (tl rs). \<not> is_done r)"
  proof (cases rs)
    case Nil
    then show ?thesis by (simp add: write_cases async_write_cases split: option.splits)
  next
    case (Cons r rs')
    with ns have s: "r \<noteq> Suspended" by auto
    from d show ?thesis
    proof
      assume "done_at_first_call rs"
      with Cons show ?thesis
        by (cases r; cases "tr 0"; cases "tr (Suc 0)")
           (simp_all add: write_cases async_write_cases write_op_1_Cons write_final_def
               split: option.splits)
    next
      assume "\<forall>r\<in>set (tl rs). \<not> is_done r"
      with Cons have nd: "\<forall>r\<in>set rs'. \<not> is_done r" by simp
      from s inner_agree [OF nd, of wp tr "Suc 0" "[]"] Cons show ?thesis
        by (cases r; cases "tr 0"; cases "tr (Suc 0)")
           (auto simp: write_cases async_write_cases write_op_1_Cons write_final_def
               split: option.splits)
    qed
  qed
  have 2: "\<exists>ps. writes (write wp tr rs) = HeaderOnly (sb wp) # ps"
    if "first_suspends rs" "init_ec wp = None"
    using that by (cases rs rule: first_suspends.cases) (simp_all add: write_cases)
  have 3: "\<exists>b. p = HeaderAndBody (sb wp) b"
    if "init_ec wp = None" "writes (async_write wp tr rs) = p # ps" for p ps
  proof -
    from that have "writes (write_op wp tr 1 (sb wp) 0 None rs) = p # ps"
      by (simp add: async_write_cases)
    from async_first_write [OF this] show ?thesis by blast
  qed
  have 4: "concat (map wire (writes (async_write wp tr rs))) =
        concat (map wire (writes (write wp tr (upto_done rs)))) @
        (if chunked wp \<and> \<not> done_at_first_call rs then chunk_encode_final else [])"
    if h: "init_ec wp = None" "finishes rs" "\<forall>m. tr m = None"
  proof -
    have "errors (async_write wp tr rs) = [] \<and>
        completions (async_write wp tr rs) = [if close wp then Some eof else None]"
      by (rule run_completes [OF _ h]) simp
    then have "concat (map wire (writes (async_write wp tr rs))) =
        sb wp @ concat (map (body_buffers wp) (body rs)) @
        (if chunked wp then chunk_encode_final else [])"
      using run_whole_body [of "async_write wp tr rs" wp tr rs] by simp
    with write_upto_done [OF h] show ?thesis by simp
  qed
  from 1 2 3 4 write_upto_done_prefix [of wp tr rs] through_done [of rs wp tr]
  show ?thesis by (intro conjI impI allI) simp_all
qed

theorem engines_agree_witness:
  "\<not> first_suspends [Emit ''he'' False, Suspended, Emit ''llo'' True, Emit ''again'' True] \<and>
   upto_done [Emit ''he'' False, Suspended, Emit ''llo'' True, Emit ''again'' True] =
     [Emit ''he'' False, Suspended, Emit ''llo'' True] \<and>
   writes (write chunked_msg good_stream [Emit ''he'' False, Suspended, Emit ''llo'' True]) =
     [HeaderAndBody ok_header (chunk_encode ''he''), BodyOnly (chunk_encode ''llo'')] \<and>
   writes (async_write chunked_msg good_stream
       [Emit ''he'' False, Suspended, Emit ''llo'' True, Emit ''again'' True]) =
     [HeaderAndBody ok_header (chunk_encode ''he''), BodyOnly (chunk_encode ''llo''), FinalChunk] \<and>
   prefix [HeaderAndBody ok_header (chunk_encode ''he''), BodyOnly (chunk_encode ''llo'')]
     (writes (write chunked_msg good_stream
       [Emit ''he'' False, Suspended, Emit ''llo'' True, Emit ''again'' True])) \<and>
   writes (write chunked_msg good_stream
       [Emit ''he'' False, Suspended, Emit ''llo'' True, Emit ''again'' True]) =
     [HeaderAndBody ok_header (chunk_encode ''he''), BodyOnly (chunk_encode ''llo''),
      HeaderAndBody [] (chunk_encode ''again''), FinalChunk] \<and>
   first_suspends [Suspended, Emit ''hello'' True, Emit [] True] \<and>
   init_ec closing_msg = None \<and>
   writes (write closing_msg good_stream [Suspended, Emit ''hello'' True, Emit [] True]) =
     [HeaderOnly (sb closing_msg), BodyOnly ''hello'', HeaderAndBody [] []] \<and>
   writes (async_write closing_msg good_stream [Suspended, Emit ''hello'' True, Emit [] True]) =
     [HeaderAndBody ok_header ''hello''] \<and>
   finishes [Suspended, Emit ''hello'' True, Emit [] True] \<and>
   concat (map wire (writes (async_write closing_msg good_stream
       [Suspended, Emit ''hello'' True, Emit [] True]))) =
     concat (map wire (writes (write closing_msg good_stream [Suspended, Emit ''hello'' True])))"
proof -
  let ?rs = "[Emit ''he'' False, Suspended, Emit ''llo'' True, Emit ''again'' True]"
  let ?ss = "[Suspended, Emit ''hello'' True, Emit [] True]"
  have a: "\<not> first_suspends ?rs" by simp
  have u: "upto_done ?rs = [Emit ''he'' False, Suspended, Emit ''llo'' True]" by simp
  have w: "writes (write chunked_msg good_stream [Emit ''he'' False, Suspended, Emit ''llo'' True]) =
     [HeaderAndBody ok_header (chunk_encode ''he''), BodyOnly (chunk_encode ''llo'')]"
    by (simp add: three_calls_sync)
  have e: "errors (write chunked_msg good_stream [Emit ''he'' False, Suspended, Emit ''llo'' True]) = []"
    by (simp add: three_calls_sync)
  have c: "chunked chunked_msg" by (simp add: chunked_msg_def)
  from engines_agree [of ?rs chunked_msg good_stream] a
  have "prefix (writes (write chunked_msg good_stream (upto_done ?rs)))
          (writes (write chunked_msg good_stream ?rs)) \<and>
        writes (async_write chunked_msg good_stream ?rs) =
          writes (write chunked_msg good_stream (upto_done ?rs)) @
          (if chunked chunked_msg \<and> \<not> done_at_first_call ?rs \<and> finishes ?rs \<and>
              errors (write chunked_msg good_stream (upto_done ?rs)) = []
           then [FinalChunk] else [])"
    by blast
  then have 1: "prefix [HeaderAndBody ok_header (chunk_encode ''he''), BodyOnly (chunk_encode ''llo'')]
          (writes (write chunked_msg good_stream ?rs)) \<and>
        writes (async_write chunked_msg good_stream ?rs) =
          [HeaderAndBody ok_header (chunk_encode ''he''), BodyOnly (chunk_encode ''llo''), FinalChunk]"
    unfolding u w by (simp add: e c)
  have f: "first_suspends ?ss" by simp
  have i: "init_ec closing_msg = None" by (simp add: closing_msg_def)
  have s: "writes (write closing_msg good_stream ?ss) =
     [HeaderOnly ok_header, BodyOnly ''hello'', HeaderAndBody [] []]"
    by (simp add: header_alone_sync)
  have t: "writes (async_write closing_msg good_stream ?ss) = [HeaderAndBody ok_header ''hello'']"
    by (simp add: header_alone_async)
  from engines_agree [of ?ss closing_msg good_stream] f i
  obtain ps where "writes (write closing_msg good_stream ?ss) = HeaderOnly (sb closing_msg) # ps"
    by blast
  with s have 2: "writes (write closing_msg good_stream ?ss) =
     [HeaderOnly (sb closing_msg), BodyOnly ''hello'', HeaderAndBody [] []]"
    by simp
  have x: "writes (write chunked_msg good_stream ?rs) =
     [HeaderAndBody ok_header (chunk_encode ''he''), BodyOnly (chunk_encode ''llo''),
      HeaderAndBody [] (chunk_encode ''again''), FinalChunk]"
    by (simp add: four_calls_sync)
  have g: "\<forall>m. good_stream m = None" by (simp add: good_stream_def)
  have k: "finishes ?ss" by simp
  have n: "\<not> chunked closing_msg" by (simp add: closing_msg_def)
  from engines_agree [of ?ss closing_msg good_stream] i k g
  have "concat (map wire (writes (async_write closing_msg good_stream ?ss))) =
        concat (map wire (writes (write closing_msg good_stream (upto_done ?ss)))) @
        (if chunked closing_msg \<and> \<not> done_at_first_call ?ss then chunk_encode_final else [])"
    by blast
  then have 3: "concat (map wire (writes (async_write closing_msg good_stream ?ss))) =
     concat (map wire (writes (write closing_msg good_stream [Suspended, Emit ''hello'' True])))"
    by (simp add: n)
  from a u w 1 x f i 2 t k 3 show ?thesis by blast
qed

text \<open>
  C3. Each engine calls the body writer only until it first reports that it is done or
  sets an error. \<^verbatim>\<open>write_op\<close> does so (\<open>async_write_stops_at_done\<close>). In \<^verbatim>\<open>write\<close> the
  \<^verbatim>\<open>break\<close> of the inner loop (line 345) leaves the inner loop only: the outer loop
  starts over and calls the body writer again. Below, the body writer emits one slice,
  then a second one with which it is done; \<^verbatim>\<open>write\<close> calls it a third time and writes
  what that call emits.
\<close>

theorem write_calls_produce_after_done:
  "outcomes (after_done (write chunked_msg good_stream
      [Emit ''hello'' False, Emit ''world'' True, Emit ''again'' True])) = [Emit ''again'' True] \<and>
   map wire (writes (write chunked_msg good_stream
      [Emit ''hello'' False, Emit ''world'' True, Emit ''again'' True])) =
     [ok_header @ chunk_encode ''hello'', chunk_encode ''world'', chunk_encode ''again'',
      chunk_encode_final] \<and>
   outcomes (after_done (async_write chunked_msg good_stream
      [Emit ''hello'' False, Emit ''world'' True, Emit ''again'' True])) = []"
  by (simp add: write_cases async_write_cases chunked_msg_def good_stream_def write_final_def
      body_buffers_def write_op_1_Cons write_op_3_Cons)

text \<open>
  C4, as stated: in either engine the header is written exactly once, and only as a
  prefix of the first write that also carries body data, never as a write of its own.
  When the first call of the body writer suspends, \<^verbatim>\<open>write\<close> sends the header as a
  write of its own (line 319).
\<close>

theorem write_sends_header_alone:
  "writes (write closing_msg good_stream [Suspended, Emit ''hello'' True, Emit [] True]) =
     [HeaderOnly ok_header, BodyOnly ''hello'', HeaderAndBody [] []] \<and>
   errors (write closing_msg good_stream [Suspended, Emit ''hello'' True, Emit [] True]) = [] \<and>
   completions (write closing_msg good_stream [Suspended, Emit ''hello'' True, Emit [] True]) =
     [Some eof]"
  by (simp add: write_cases closing_msg_def good_stream_def write_final_def body_buffers_def)

text \<open>
  C4, amended. In either engine a write that completes without error has written
  something, the first write of a run carries the serialized header, and no later write
  carries any header bytes: the header is never sent again. In \<^verbatim>\<open>write_op\<close> the first
  write always carries the first slice of the body as well. In \<^verbatim>\<open>write\<close> it does so
  unless the first call of the body writer suspends; then the header is sent at once, as
  a write of its own.
\<close>

theorem header_sent_once_with_first_write:
  assumes "T = write wp tr rs \<or> T = async_write wp tr rs"
  shows "(errors T = [] \<longrightarrow> completions T \<noteq> [] \<longrightarrow> writes T \<noteq> []) \<and>
         (\<forall>p ps. writes T = p # ps \<longrightarrow>
            header_part p = sb wp \<and> (\<forall>q\<in>set ps. header_part q = []) \<and>
            (if T = write wp tr rs \<and> first_suspends rs then p = HeaderOnly (sb wp)
             else \<exists>s ss. slices T = s # ss \<and> p = HeaderAndBody (sb wp) (body_buffers wp s)))"
proof (cases "init_ec wp")
  case None
  from assms show ?thesis
  proof
    assume W: "T = write wp tr rs"
    with None have T: "T = Init None # write_outer wp tr (sb wp) 0 rs"
      by (simp add: write_cases)
    have 1: "errors T = [] \<longrightarrow> completions T \<noteq> [] \<longrightarrow> writes T \<noteq> []"
      using sync_completed_has_written [of wp tr "sb wp" 0 rs] by (simp add: T)
    have 2: "header_part p = sb wp \<and> (\<forall>q\<in>set ps. header_part q = []) \<and>
            (if T = write wp tr rs \<and> first_suspends rs then p = HeaderOnly (sb wp)
             else \<exists>s ss. slices T = s # ss \<and> p = HeaderAndBody (sb wp) (body_buffers wp s))"
      if "writes T = p # ps" for p ps
    proof -
      from that have "writes (write_outer wp tr (sb wp) 0 rs) = p # ps" by (simp add: T)
      note first = sync_first_write [OF this]
      have cond: "(T = write wp tr rs \<and> first_suspends rs) = first_suspends rs"
        using W by simp
      have sl: "slices T = slices (write_outer wp tr (sb wp) 0 rs)" by (simp add: T)
      from first show ?thesis unfolding cond sl by (auto split: if_splits)
    qed
    from 1 2 show ?thesis by blast
  next
    assume A: "T = async_write wp tr rs"
    with None have T: "T = Enter # Init None # write_op wp tr 1 (sb wp) 0 None rs"
      by (simp add: async_write_cases)
    from A have N: "T \<noteq> write wp tr rs"
      using write_not_async_write [of wp tr rs wp tr rs] by simp
    have 1: "errors T = [] \<longrightarrow> completions T \<noteq> [] \<longrightarrow> writes T \<noteq> []"
      using async_completed_has_written [of wp tr "sb wp" 0 rs] by (simp add: T)
    have 2: "header_part p = sb wp \<and> (\<forall>q\<in>set ps. header_part q = []) \<and>
            (if T = write wp tr rs \<and> first_suspends rs then p = HeaderOnly (sb wp)
             else \<exists>s ss. slices T = s # ss \<and> p = HeaderAndBody (sb wp) (body_buffers wp s))"
      if "writes T = p # ps" for p ps
    proof -
      from that have "writes (write_op wp tr 1 (sb wp) 0 None rs) = p # ps" by (simp add: T)
      note first = async_first_write [OF this]
      have cond: "(T = write wp tr rs \<and> first_suspends rs) = False"
        using N by simp
      have sl: "slices T = slices (write_op wp tr 1 (sb wp) 0 None rs)" by (simp add: T)
      from first show ?thesis unfolding cond sl by (auto split: if_splits)
    qed
    from 1 2 show ?thesis by blast
  qed
next
  case (Some e)
  with assms have "writes T = []" and "errors T \<noteq> []"
    by (auto simp: write_cases async_write_cases)
  then show ?thesis by simp
qed

theorem header_sent_once_with_first_write_witness:
  "errors (async_write chunked_msg good_stream [Emit ''hello'' False, Emit ''world'' True]) = [] \<and>
   completions (async_write chunked_msg good_stream [Emit ''hello'' False, Emit ''world'' True]) \<noteq> [] \<and>
   writes (async_write chunked_msg good_stream [Emit ''hello'' False, Emit ''world'' True]) =
     [HeaderAndBody ok_header (chunk_encode ''hello''), BodyOnly (chunk_encode ''world''), FinalChunk] \<and>
   header_part (HeaderAndBody ok_header (chunk_encode ''hello'')) = sb chunked_msg \<and>
   map header_part [BodyOnly (chunk_encode ''world''), FinalChunk] = [[], []] \<and>
   first_suspends [Suspended, Emit ''hello'' True, Emit [] True] \<and>
   writes (write closing_msg good_stream [Suspended, Emit ''hello'' True, Emit [] True]) =
     [HeaderOnly (sb closing_msg), BodyOnly ''hello'', HeaderAndBody [] []]"
proof -
  let ?T = "async_write chunked_msg good_stream [Emit ''hello'' False, Emit ''world'' True]"
  let ?U = "write closing_msg good_stream [Suspended, Emit ''hello'' True, Emit [] True]"
  have e: "errors ?T = []" by (simp add: hello_world_async)
  have d: "completions ?T \<noteq> []" by (simp add: hello_world_async)
  have w: "writes ?T =
     [HeaderAndBody ok_header (chunk_encode ''hello''), BodyOnly (chunk_encode ''world''), FinalChunk]"
    by (simp add: hello_world_async)
  from header_sent_once_with_first_write [of ?T chunked_msg good_stream
      "[Emit ''hello'' False, Emit ''world'' True]"] w
  have 1: "header_part (HeaderAndBody ok_header (chunk_encode ''hello'')) = sb chunked_msg \<and>
   (\<forall>q\<in>set [BodyOnly (chunk_encode ''world''), FinalChunk]. header_part q = [])"
    by blast
  have f: "first_suspends [Suspended, Emit ''hello'' True, Emit [] True]" by simp
  have u: "writes ?U = [HeaderOnly ok_header, BodyOnly ''hello'', HeaderAndBody [] []]"
    by (simp add: header_alone_sync)
  from header_sent_once_with_first_write [of ?U closing_msg good_stream
      "[Suspended, Emit ''hello'' True, Emit [] True]"] u f
  have "HeaderOnly ok_header = HeaderOnly (sb closing_msg)"
    by simp
  with u have 2: "writes ?U = [HeaderOnly (sb closing_msg), BodyOnly ''hello'', HeaderAndBody [] []]"
    by simp
  from e d w 1 f 2 show ?thesis by simp
qed

text \<open>
  C5, as stated: for every content-length message whose write completes without error
  the payloads concatenate to the header followed by the emitted slices, and the total
  body length equals the declared content length. Neither engine reads or checks the
  declared length: a body writer that emits three bytes for a message declaring five is
  written out without error.
\<close>

theorem content_length_not_checked:
  "\<not> chunked closing_msg \<and>
   errors (write closing_msg good_stream [Emit ''abc'' True]) = [] \<and>
   completions (write closing_msg good_stream [Emit ''abc'' True]) = [Some eof] \<and>
   concat (map wire (writes (write closing_msg good_stream [Emit ''abc'' True]))) = ok_header @ ''abc'' \<and>
   length (concat (slices (write closing_msg good_stream [Emit ''abc'' True]))) \<noteq>
     content_length closing_msg"
  by (simp add: write_cases closing_msg_def good_stream_def write_final_def body_buffers_def)

text \<open>
  C5, amended. For a content-length message the bytes handed to the stream are the
  serialized header followed by the raw concatenation of the slices of the body, in the
  order in which the body writer emitted them and with no framing bytes added:
  \<^item> in \<^verbatim>\<open>write_op\<close> for every body, and in \<^verbatim>\<open>write\<close> for a body that is done at the first
    call of the body writer, whenever the write completes without error; and when no
    collaborator raises an error the write does complete without error;
  \<^item> in \<^verbatim>\<open>write\<close> for every other body, at the moment when the body writer is done, if no
    collaborator has raised an error; these payloads are the start of all that \<^verbatim>\<open>write\<close>
    hands to the stream.
  The engines do not compare the total body length with the declared content length:
  emitting exactly that many bytes is left to the body writer.
\<close>

theorem content_length_payload_concat:
  assumes "\<not> chunked wp"
  shows "(T = async_write wp tr rs \<or> (T = write wp tr rs \<and> done_at_first_call rs) \<longrightarrow>
            (errors T = [] \<longrightarrow> completions T \<noteq> [] \<longrightarrow>
               finishes rs \<and> concat (map wire (writes T)) = sb wp @ concat (body rs)) \<and>
            (init_ec wp = None \<longrightarrow> finishes rs \<longrightarrow> (\<forall>m. tr m = None) \<longrightarrow>
               errors T = [] \<and> completions T \<noteq> [] \<and>
               concat (map wire (writes T)) = sb wp @ concat (body rs))) \<and>
         (init_ec wp = None \<longrightarrow> finishes rs \<longrightarrow> (\<forall>m. tr m = None) \<longrightarrow>
            prefix (writes (write wp tr (upto_done rs))) (writes (write wp tr rs)) \<and>
            concat (map wire (writes (write wp tr (upto_done rs)))) = sb wp @ concat (body rs))"
proof -
  have B: "body_buffers wp = (\<lambda>buffers. buffers)"
    using assms by (simp add: body_buffers_def fun_eq_iff)
  have 1: "finishes rs \<and> concat (map wire (writes T)) = sb wp @ concat (body rs)"
    if "T = async_write wp tr rs \<or> (T = write wp tr rs \<and> done_at_first_call rs)"
      "errors T = []" "completions T \<noteq> []"
    using run_whole_body [OF that] assms by (simp add: B)
  have 2: "errors T = [] \<and> completions T \<noteq> []"
    if "T = async_write wp tr rs \<or> (T = write wp tr rs \<and> done_at_first_call rs)"
      "init_ec wp = None" "finishes rs" "\<forall>m. tr m = None"
    using run_completes [OF that] by simp
  have 3: "concat (map wire (writes (write wp tr (upto_done rs)))) = sb wp @ concat (body rs)"
    if "init_ec wp = None" "finishes rs" "\<forall>m. tr m = None"
    using write_upto_done [OF that] assms by (simp add: B)
  from 1 2 3 write_upto_done_prefix [of wp tr rs] show ?thesis by blast
qed

theorem content_length_payload_concat_witness:
  "\<not> chunked closing_msg \<and> init_ec closing_msg = None \<and>
   finishes [Emit ''he'' False, Suspended, Emit ''llo'' True] \<and>
   body [Emit ''he'' False, Suspended, Emit ''llo'' True] = [''he'', ''llo''] \<and>
   errors (async_write closing_msg good_stream [Emit ''he'' False, Suspended, Emit ''llo'' True]) = [] \<and>
   completions (async_write closing_msg good_stream [Emit ''he'' False, Suspended, Emit ''llo'' True]) =
     [Some eof] \<and>
   concat (map wire (writes (async_write closing_msg good_stream
      [Emit ''he'' False, Suspended, Emit ''llo'' True]))) = ok_header @ ''hello'' \<and>
   done_at_first_call [Emit ''hello'' True] \<and>
   errors (write closing_msg good_stream [Emit ''hello'' True]) = [] \<and>
   completions (write closing_msg good_stream [Emit ''hello'' True]) = [Some eof] \<and>
   concat (map wire (writes (write closing_msg good_stream [Emit ''hello'' True]))) =
     ok_header @ ''hello'' \<and>
   writes (write closing_msg good_stream [Emit ''he'' False, Suspended, Emit ''llo'' True]) =
     [HeaderAndBody ok_header ''he'', BodyOnly ''llo''] \<and>
   concat (map wire (writes (write closing_msg good_stream
      [Emit ''he'' False, Suspended, Emit ''llo'' True]))) = ok_header @ ''hello''"
proof -
  let ?rs = "[Emit ''he'' False, Suspended, Emit ''llo'' True]"
  let ?T = "async_write closing_msg good_stream ?rs"
  let ?U = "write closing_msg good_stream [Emit ''hello'' True]"
  have c: "\<not> chunked closing_msg" by (simp add: closing_msg_def)
  have i: "init_ec closing_msg = None" by (simp add: closing_msg_def)
  have b: "sb closing_msg = ok_header" by (simp add: closing_msg_def)
  have g: "\<forall>m. good_stream m = None" by (simp add: good_stream_def)
  have f: "finishes ?rs" by simp
  have s: "body ?rs = [''he'', ''llo'']" by simp
  have u: "upto_done ?rs = ?rs" by simp
  have e: "errors ?T = []" by (simp add: suspended_body_async)
  have d: "completions ?T = [Some eof]" by (simp add: suspended_body_async)
  from content_length_payload_concat [OF c, of ?T good_stream ?rs] i f g
  have "concat (map wire (writes ?T)) = sb closing_msg @ concat (body ?rs)" by blast
  then have 1: "concat (map wire (writes ?T)) = ok_header @ ''hello''" by (simp add: b)
  have f': "finishes [Emit ''hello'' True]" by simp
  have a: "done_at_first_call [Emit ''hello'' True]" by simp
  have e': "errors ?U = []" by (simp add: closing_sync)
  have d': "completions ?U = [Some eof]" by (simp add: closing_sync)
  from content_length_payload_concat [OF c, of ?U good_stream "[Emit ''hello'' True]"] a i f' g
  have "concat (map wire (writes ?U)) = sb closing_msg @ concat (body [Emit ''hello'' True])"
    by blast
  then have 2: "concat (map wire (writes ?U)) = ok_header @ ''hello''" by (simp add: b)
  from content_length_payload_concat [OF c, of ?T good_stream ?rs] i f g
  have "concat (map wire (writes (write closing_msg good_stream (upto_done ?rs)))) =
      sb closing_msg @ concat (body ?rs)" by blast
  then have 3: "concat (map wire (writes (write closing_msg good_stream ?rs))) = ok_header @ ''hello''"
    by (simp add: b)
  have y: "writes (write closing_msg good_stream ?rs) =
     [HeaderAndBody ok_header ''he'', BodyOnly ''llo'']"
    by (simp add: suspended_body_sync)
  from c i f s e d 1 a e' d' 2 y 3 show ?thesis by blast
qed

text \<open>
  C6. In either engine, once \<^verbatim>\<open>wp.init\<close> or the body writer has set an error, or a
  write to the stream has reported one, nothing more is written to the stream, that error
  is the one reported to the caller, and the caller is completed exactly once. If
  \<^verbatim>\<open>wp.init\<close> fails, nothing is ever written.
\<close>

theorem error_stops_the_write:
  assumes "T = write wp tr rs \<or> T = async_write wp tr rs" and "errors T \<noteq> []"
  shows "writes (after_error T) = [] \<and>
         (\<exists>e. errors T = [e] \<and> completions T = [Some e]) \<and>
         (init_ec wp \<noteq> None \<longrightarrow> writes T = [])"
proof -
  from assms(2) obtain e es where E: "errors T = e # es" by (cases "errors T") auto
  from run_failure [OF assms(1) E] E init_failure_no_writes [OF assms(1)]
  show ?thesis by auto
qed

theorem error_stops_the_write_witness:
  "errors (async_write closing_msg good_stream [Emit ''hello'' False, Failed (other_error 7)]) \<noteq> [] \<and>
   writes (after_error
     (async_write closing_msg good_stream [Emit ''hello'' False, Failed (other_error 7)])) = [] \<and>
   completions (async_write closing_msg good_stream [Emit ''hello'' False, Failed (other_error 7)]) =
     [Some (other_error 7)] \<and>
   writes (async_write closing_msg good_stream [Emit ''hello'' False, Failed (other_error 7)]) =
     [HeaderAndBody ok_header ''hello''] \<and>
   init_ec rejected_msg \<noteq> None \<and>
   errors (write rejected_msg good_stream [Emit ''hello'' True]) \<noteq> [] \<and>
   writes (write rejected_msg good_stream [Emit ''hello'' True]) = [] \<and>
   completions (write rejected_msg good_stream [Emit ''hello'' True]) = [Some (other_error 22)]"
proof -
  let ?T = "async_write closing_msg good_stream [Emit ''hello'' False, Failed (other_error 7)]"
  let ?U = "write rejected_msg good_stream [Emit ''hello'' True]"
  have e: "errors ?T \<noteq> []" by (simp add: second_produce_fails)
  from error_stops_the_write [OF _ e, of closing_msg good_stream
      "[Emit ''hello'' False, Failed (other_error 7)]"]
  have "writes (after_error ?T) = [] \<and> (\<exists>e. errors ?T = [e] \<and> completions ?T = [Some e])"
    by simp
  moreover have "errors ?T = [other_error 7]" by (simp add: second_produce_fails)
  moreover have "writes ?T = [HeaderAndBody ok_header ''hello'']" by (simp add: second_produce_fails)
  ultimately have 1: "writes (after_error ?T) = [] \<and> completions ?T = [Some (other_error 7)] \<and>
      writes ?T = [HeaderAndBody ok_header ''hello'']"
    by auto
  have i: "init_ec rejected_msg \<noteq> None" by (simp add: rejected_msg_def)
  have u: "errors ?U = [other_error 22]"
    by (simp add: write_cases rejected_msg_def closing_msg_def)
  then have u': "errors ?U \<noteq> []" by simp
  from error_stops_the_write [OF _ u', of rejected_msg good_stream "[Emit ''hello'' True]"] i u
  have 2: "writes ?U = [] \<and> completions ?U = [Some (other_error 22)]"
    by auto
  from e 1 i u' 2 show ?thesis by blast
qed

text \<open>
  C7. In either engine, a message with \<^verbatim>\<open>wp.close\<close> set whose write runs to completion
  without a body or stream error is reported to the caller with the end-of-stream code
  \<^verbatim>\<open>eof\<close>, never with a cleared error code. Such writes exist: with collaborators that
  raise no error, \<^verbatim>\<open>write_op\<close> completes in this way for every body, and \<^verbatim>\<open>write\<close> for
  every body that is done at the first call of the body writer.
\<close>

theorem close_reports_eof:
  assumes "close wp"
  shows "(T = write wp tr rs \<or> T = async_write wp tr rs \<longrightarrow>
            errors T = [] \<longrightarrow> completions T \<noteq> [] \<longrightarrow> completions T = [Some eof]) \<and>
         (T = async_write wp tr rs \<or> (T = write wp tr rs \<and> done_at_first_call rs) \<longrightarrow>
            init_ec wp = None \<longrightarrow> finishes rs \<longrightarrow> (\<forall>m. tr m = None) \<longrightarrow>
            errors T = [] \<and> completions T = [Some eof])"
proof -
  have 1: "completions T = [Some eof]"
    if "T = write wp tr rs \<or> T = async_write wp tr rs" "errors T = []" "completions T \<noteq> []"
    using run_completions [OF that(1,2)] that(3) assms by auto
  have 2: "errors T = [] \<and> completions T = [Some eof]"
    if "T = async_write wp tr rs \<or> (T = write wp tr rs \<and> done_at_first_call rs)"
      "init_ec wp = None" "finishes rs" "\<forall>m. tr m = None"
    using run_completes [OF that] assms by simp
  from 1 2 show ?thesis by blast
qed

theorem close_reports_eof_witness:
  "close closing_msg \<and> init_ec closing_msg = None \<and>
   finishes [Emit ''he'' False, Suspended, Emit ''llo'' True] \<and>
   completions (async_write closing_msg good_stream [Emit ''he'' False, Suspended, Emit ''llo'' True]) =
     [Some eof] \<and>
   done_at_first_call [Emit ''hello'' True] \<and>
   completions (write closing_msg good_stream [Emit ''hello'' True]) = [Some eof] \<and>
   errors (write closing_msg good_stream
      [Emit ''he'' False, Suspended, Emit ''llo'' True, Emit [] True]) = [] \<and>
   completions (write closing_msg good_stream
      [Emit ''he'' False, Suspended, Emit ''llo'' True, Emit [] True]) = [Some eof]"
proof -
  let ?rs = "[Emit ''he'' False, Suspended, Emit ''llo'' True]"
  let ?T = "async_write closing_msg good_stream ?rs"
  let ?U = "write closing_msg good_stream [Emit ''hello'' True]"
  let ?V = "write closing_msg good_stream [Emit ''he'' False, Suspended, Emit ''llo'' True, Emit [] True]"
  have c: "close closing_msg" by (simp add: closing_msg_def)
  have i: "init_ec closing_msg = None" by (simp add: closing_msg_def)
  have g: "\<forall>m. good_stream m = None" by (simp add: good_stream_def)
  have f: "finishes ?rs" by simp
  from close_reports_eof [OF c, of ?T good_stream ?rs] i f g
  have 1: "completions ?T = [Some eof]" by blast
  have a: "done_at_first_call [Emit ''hello'' True]" by simp
  have f': "finishes [Emit ''hello'' True]" by simp
  from close_reports_eof [OF c, of ?U good_stream "[Emit ''hello'' True]"] a i f' g
  have 2: "completions ?U = [Some eof]" by blast
  have e: "errors ?V = []" by (simp add: plain_sync)
  have d: "completions ?V \<noteq> []" by (simp add: plain_sync)
  from close_reports_eof [OF c, of ?V good_stream
      "[Emit ''he'' False, Suspended, Emit ''llo'' True, Emit [] True]"] e d
  have 3: "completions ?V = [Some eof]" by blast
  from c i f 1 a 2 e 3 show ?thesis by blast
qed

text \<open>
  C8. A body writer that suspends \<open>N\<close> times makes \<^verbatim>\<open>write_op::operator()\<close> be entered
  more than \<open>N\<close> times (the first entry and at least \<open>N\<close> re-entries), and between a
  call of the body writer that suspends and the invocation of its resume context
  \<^verbatim>\<open>write_op\<close> hands nothing to the stream.
\<close>

theorem suspension_reenters_without_writing:
  "count_list (outcomes (async_write wp tr rs)) Suspended < count_list (async_write wp tr rs) Enter \<and>
   suspended_writes False (async_write wp tr rs) = []"
  using async_suspension [of wp tr "sb wp" 0 rs]
  by (simp add: async_write_cases split: option.splits)

theorem suspension_reenters_without_writing_witness:
  "count_list (outcomes (async_write chunked_msg good_stream
      [Suspended, Emit ''hello'' False, Suspended, Suspended, Emit [] True])) Suspended = 3 \<and>
   3 < count_list (async_write chunked_msg good_stream
      [Suspended, Emit ''hello'' False, Suspended, Suspended, Emit [] True]) Enter \<and>
   suspended_writes False (async_write chunked_msg good_stream
      [Suspended, Emit ''hello'' False, Suspended, Suspended, Emit [] True]) = []"
proof -
  let ?T = "async_write chunked_msg good_stream
      [Suspended, Emit ''hello'' False, Suspended, Suspended, Emit [] True]"
  have "count_list (outcomes ?T) Suspended = 3"
    by (simp add: async_write_cases chunked_msg_def good_stream_def write_op_1_Cons write_op_3_Cons)
  with suspension_reenters_without_writing [of chunked_msg good_stream
      "[Suspended, Emit ''hello'' False, Suspended, Suspended, Emit [] True]"]
  show ?thesis by simp
qed

text \<open>
  C9. In either engine the final chunk is written by a step of its own: never before
  the body writer has reported that it is done, at most once, and never for a
  content-length message; and for a chunked message whose write completes without error
  it is written exactly once and is the last write, also when the last slice of the body
  is empty. Such writes exist: with collaborators that raise no error, \<^verbatim>\<open>write_op\<close> for
  every body, and \<^verbatim>\<open>write\<close> for every body that is done at the first call of the body
  writer, complete without error and write the final chunk exactly once, last.
\<close>

theorem final_chunk_once_after_done:
  assumes "T = write wp tr rs \<or> T = async_write wp tr rs"
  shows "FinalChunk \<notin> set (writes (before_done T)) \<and>
         count_list (writes T) FinalChunk \<le> 1 \<and>
         (\<not> chunked wp \<longrightarrow> FinalChunk \<notin> set (writes T)) \<and>
         (chunked wp \<longrightarrow> errors T = [] \<longrightarrow> completions T \<noteq> [] \<longrightarrow>
            count_list (writes T) FinalChunk = 1 \<and> last (writes T) = FinalChunk) \<and>
         (chunked wp \<longrightarrow> T = async_write wp tr rs \<or> done_at_first_call rs \<longrightarrow>
            init_ec wp = None \<longrightarrow> finishes rs \<longrightarrow> (\<forall>m. tr m = None) \<longrightarrow>
            errors T = [] \<and> completions T \<noteq> [] \<and>
            count_list (writes T) FinalChunk = 1 \<and> last (writes T) = FinalChunk)"
proof -
  note old = final_chunk_facts [OF assms]
  have live: "errors T = [] \<and> completions T \<noteq> []"
    if "T = async_write wp tr rs \<or> done_at_first_call rs"
      "init_ec wp = None" "finishes rs" "\<forall>m. tr m = None"
  proof -
    from that(1) assms
    have "T = async_write wp tr rs \<or> (T = write wp tr rs \<and> done_at_first_call rs)" by blast
    from run_completes [OF this that(2,3,4)] show ?thesis by simp
  qed
  from old live show ?thesis by blast
qed

theorem final_chunk_once_after_done_witness:
  "chunked chunked_msg \<and> init_ec chunked_msg = None \<and>
   finishes [Suspended, Emit [] True] \<and>
   writes (async_write chunked_msg good_stream [Suspended, Emit [] True]) =
     [HeaderAndBody ok_header (chunk_encode []), FinalChunk] \<and>
   count_list (writes (async_write chunked_msg good_stream [Suspended, Emit [] True])) FinalChunk = 1 \<and>
   last (writes (async_write chunked_msg good_stream [Suspended, Emit [] True])) = FinalChunk \<and>
   FinalChunk \<notin> set (writes (before_done
      (async_write chunked_msg good_stream [Suspended, Emit [] True]))) \<and>
   wire (BodyOnly (chunk_encode [])) = wire FinalChunk \<and>
   done_at_first_call [Emit ''hello'' True] \<and>
   writes (write chunked_msg good_stream [Emit ''hello'' True]) =
     [HeaderAndBody ok_header (chunk_encode ''hello''), FinalChunk] \<and>
   count_list (writes (write chunked_msg good_stream [Emit ''hello'' True])) FinalChunk = 1 \<and>
   last (writes (write chunked_msg good_stream [Emit ''hello'' True])) = FinalChunk \<and>
   errors (write chunked_msg good_stream [Suspended, Emit [] True, Emit [] True]) = [] \<and>
   completions (write chunked_msg good_stream [Suspended, Emit [] True, Emit [] True]) = [None] \<and>
   writes (write chunked_msg good_stream [Suspended, Emit [] True, Emit [] True]) =
     [HeaderOnly ok_header, BodyOnly (chunk_encode []), HeaderAndBody [] (chunk_encode []), FinalChunk] \<and>
   count_list (writes (write chunked_msg good_stream [Suspended, Emit [] True, Emit [] True]))
     FinalChunk = 1 \<and>
   \<not> chunked closing_msg \<and>
   FinalChunk \<notin> set (writes (write closing_msg good_stream [Emit ''hello'' True]))"
proof -
  let ?rs = "[Suspended, Emit [] True]"
  let ?T = "async_write chunked_msg good_stream ?rs"
  let ?U = "write chunked_msg good_stream [Emit ''hello'' True]"
  let ?V = "write chunked_msg good_stream [Suspended, Emit [] True, Emit [] True]"
  let ?W = "write closing_msg good_stream [Emit ''hello'' True]"
  have c: "chunked chunked_msg" by (simp add: chunked_msg_def)
  have i: "init_ec chunked_msg = None" by (simp add: chunked_msg_def)
  have g: "\<forall>m. good_stream m = None" by (simp add: good_stream_def)
  have f: "finishes ?rs" by simp
  have w: "wire (BodyOnly (chunk_encode [])) = wire FinalChunk"
    by (simp add: chunk_encode_def chunk_encode_final_def to_hex.simps hex_digit_def)
  have t: "writes ?T = [HeaderAndBody ok_header (chunk_encode []), FinalChunk]"
    by (simp add: empty_slice_after_suspension_async)
  from final_chunk_once_after_done [of ?T chunked_msg good_stream ?rs] c i f g
  have 1: "count_list (writes ?T) FinalChunk = 1 \<and> last (writes ?T) = FinalChunk \<and>
      FinalChunk \<notin> set (writes (before_done ?T))"
    by blast
  have a: "done_at_first_call [Emit ''hello'' True]" by simp
  have f': "finishes [Emit ''hello'' True]" by simp
  have u: "writes ?U = [HeaderAndBody ok_header (chunk_encode ''hello''), FinalChunk]"
    by (simp add: chunked_first_call_sync)
  from final_chunk_once_after_done [of ?U chunked_msg good_stream "[Emit ''hello'' True]"]
    c a i f' g
  have 2: "count_list (writes ?U) FinalChunk = 1 \<and> last (writes ?U) = FinalChunk"
    by blast
  have e: "errors ?V = []" by (simp add: empty_slice_after_suspension_sync)
  have d: "completions ?V = [None]" by (simp add: empty_slice_after_suspension_sync)
  have v: "writes ?V =
     [HeaderOnly ok_header, BodyOnly (chunk_encode []), HeaderAndBody [] (chunk_encode []), FinalChunk]"
    by (simp add: empty_slice_after_suspension_sync)
  from d have d': "completions ?V \<noteq> []" by simp
  from final_chunk_once_after_done [of ?V chunked_msg good_stream
      "[Suspended, Emit [] True, Emit [] True]"] c e d'
  have 3: "count_list (writes ?V) FinalChunk = 1" by blast
  have p: "\<not> chunked closing_msg" by (simp add: closing_msg_def)
  from final_chunk_once_after_done [of ?W closing_msg good_stream "[Emit ''hello'' True]"] p
  have 4: "FinalChunk \<notin> set (writes ?W)" by blast
  from c i f t 1 w a u 2 e d v 3 p 4 show ?thesis by blast
qed

text \<open>
  C10. In either engine the end-of-stream code stands for the close request only when
  the message completed successfully: if a body or stream error occurred, that error is
  what the caller receives, also when \<^verbatim>\<open>wp.close\<close> is set; and when \<^verbatim>\<open>eof\<close> is reported
  without the body writer or the stream having raised \<^verbatim>\<open>eof\<close> themselves, no error
  occurred at all and \<^verbatim>\<open>wp.close\<close> is set.
\<close>

theorem error_not_overwritten_by_eof:
  assumes "T = write wp tr rs \<or> T = async_write wp tr rs"
  shows "(close wp \<longrightarrow> errors T \<noteq> [] \<longrightarrow> completions T = [Some (hd (errors T))]) \<and>
         (Some eof \<in> set (completions T) \<longrightarrow> eof \<notin> set (errors T) \<longrightarrow>
            errors T = [] \<and> close wp)"
proof (cases "errors T")
  case Nil
  with run_completions [OF assms Nil] show ?thesis by (auto split: if_splits)
next
  case (Cons e es)
  with run_failure [OF assms Cons] show ?thesis by auto
qed

theorem error_not_overwritten_by_eof_witness:
  "close closing_msg \<and>
   errors (write closing_msg (failing_stream (Suc 0) (other_error 32))
     [Emit ''he'' False, Emit ''llo'' True]) \<noteq> [] \<and>
   completions (write closing_msg (failing_stream (Suc 0) (other_error 32))
     [Emit ''he'' False, Emit ''llo'' True]) = [Some (other_error 32)] \<and>
   Some eof \<in> set (completions (write closing_msg good_stream [Emit ''hello'' True])) \<and>
   eof \<notin> set (errors (write closing_msg good_stream [Emit ''hello'' True])) \<and>
   errors (write closing_msg good_stream [Emit ''hello'' True]) = []"
proof -
  let ?T = "write closing_msg (failing_stream (Suc 0) (other_error 32)) [Emit ''he'' False, Emit ''llo'' True]"
  let ?U = "write closing_msg good_stream [Emit ''hello'' True]"
  have c: "close closing_msg" by (simp add: closing_msg_def)
  have e: "errors ?T \<noteq> []" by (simp add: closing_stream_fails)
  from error_not_overwritten_by_eof [of ?T closing_msg "failing_stream (Suc 0) (other_error 32)"
      "[Emit ''he'' False, Emit ''llo'' True]"] c e
  have "completions ?T = [Some (hd (errors ?T))]" by simp
  moreover have "errors ?T = [other_error 32]" by (simp add: closing_stream_fails)
  ultimately have 1: "completions ?T = [Some (other_error 32)]" by simp
  have r: "Some eof \<in> set (completions ?U)" by (simp add: closing_sync)
  have n: "eof \<notin> set (errors ?U)" by (simp add: closing_sync)
  from error_not_overwritten_by_eof [of ?U closing_msg good_stream "[Emit ''hello'' True]"] r n
  have 2: "errors ?U = []" by simp
  from c e 1 r n 2 show ?thesis by blast
qed

end
